theory Spec2Isabelle
  imports
    Complex_Main
    "HOL-Library.AList"
    "HOL-Library.Multiset"
    "HOL-Library.Product_Lexorder"
    "HOL-Library.Sublist"
    "HOL-Library.Word"
begin

section \<open>Client-side Reciprocal Rank Fusion (skills/pgvector-semantic-search/SKILL.md)\<close>

subsection \<open>Numbers\<close>

text \<open>
  A score is a JavaScript \<^verbatim>\<open>number\<close>, an IEEE 754 double. A finite value \<open>Num r\<close>
  stands for the double of value \<open>r\<close>; the values a division by zero produces are
  kept, since \<^verbatim>\<open>1 / (k + i + 1)\<close> does not throw in JavaScript. \<^verbatim>\<open>limit\<close> is an
  integer.

  The fusion is modelled twice. \<open>rrfFusion\<close>, \<open>rrfFusionWeighted\<close> and
  \<open>weightedScores\<close> compute with exact rationals (no rounding, no overflow), from
  finite \<^verbatim>\<open>k\<close> and weights (\<open>rat\<close>). \<open>rrfFusionWith\<close>,
  \<open>rrfFusionWeightedWith\<close> and \<open>scoresWith\<close> are the same functions over any
  arithmetic of doubles, given as a parameter: what depends on two scores being equal,
  or on the order of additions, is stated of them, since rounding makes and breaks
  ties and is not associative. The exact functions are their instance at the exact
  arithmetic (\<open>rrfFusion_exactOps\<close> below).
\<close>

datatype jsnum = Num rat | PosInfinity | NegInfinity | NaN

text \<open>
  \<^verbatim>\<open>a / b\<close> for finite \<open>a\<close> and \<open>b\<close>, exactly: the quotient is not rounded (the
  rounded division is \<open>fdiv\<close> below). A zero divisor is the positive zero here: it
  arises only as \<^verbatim>\<open>k + i + 1\<close> with a negative \<open>k\<close>, and \<open>x + (-x)\<close> is \<open>+0\<close>.
\<close>

definition jsDiv :: "rat \<Rightarrow> rat \<Rightarrow> jsnum" where
  "jsDiv a b =
     (if b \<noteq> 0 then Num (a / b)
      else if 0 < a then PosInfinity
      else if a < 0 then NegInfinity
      else NaN)"

instantiation jsnum :: comm_monoid_add
begin

definition zero_jsnum :: jsnum where
  "zero_jsnum = Num 0"

fun plus_jsnum :: "jsnum \<Rightarrow> jsnum \<Rightarrow> jsnum" where
  "plus_jsnum (Num a) (Num b) = Num (a + b)"
| "plus_jsnum NaN _ = NaN"
| "plus_jsnum _ NaN = NaN"
| "plus_jsnum PosInfinity NegInfinity = NaN"
| "plus_jsnum NegInfinity PosInfinity = NaN"
| "plus_jsnum PosInfinity _ = PosInfinity"
| "plus_jsnum _ PosInfinity = PosInfinity"
| "plus_jsnum NegInfinity _ = NegInfinity"
| "plus_jsnum _ NegInfinity = NegInfinity"

instance
proof
  fix x y z :: jsnum
  show "0 + x = x"
    unfolding zero_jsnum_def by (cases x) auto
  show "x + y = y + x"
  proof (cases y)
    case NaN
    then show ?thesis by (cases x) auto
  qed (cases x; simp)+
  show "x + y + z = x + (y + z)"
  proof (cases x)
    case (Num r)
    then show ?thesis by (cases y; cases z; simp)
  qed (cases y; cases z; simp)+
qed

end

text \<open>
  \<^verbatim>\<open>a - b\<close>, as the comparator of the sort computes it. The sort uses its sign
  only. The difference of two doubles, rounded, has the sign of their exact difference:
  rounding is monotone and keeps zero, a difference of two distinct doubles does not
  round to zero (gradual underflow), and overflow gives the infinity of the same sign.
  So the exact difference serves for doubles as well.
\<close>

fun jsSub :: "jsnum \<Rightarrow> jsnum \<Rightarrow> jsnum" where
  "jsSub (Num a) (Num b) = Num (a - b)"
| "jsSub NaN _ = NaN"
| "jsSub _ NaN = NaN"
| "jsSub PosInfinity PosInfinity = NaN"
| "jsSub NegInfinity NegInfinity = NaN"
| "jsSub PosInfinity _ = PosInfinity"
| "jsSub _ PosInfinity = NegInfinity"
| "jsSub NegInfinity _ = NegInfinity"
| "jsSub _ NegInfinity = PosInfinity"

fun isPositive :: "jsnum \<Rightarrow> bool" where
  "isPositive (Num r) = (0 < r)"
| "isPositive PosInfinity = True"
| "isPositive NegInfinity = False"
| "isPositive NaN = False"

subsection \<open>Rows, results and the insertion-ordered Map\<close>

text \<open>
  \<^verbatim>\<open>type Row = { id: number; content: string }\<close> and
  \<^verbatim>\<open>type Result = Row & { score: number }\<close>. The field \<^verbatim>\<open>id\<close> is \<open>row_id\<close> here
  (\<open>id\<close> is the identity function of HOL).
\<close>

record Row =
  row_id :: int
  content :: string

record Result = Row +
  score :: jsnum

text \<open>
  A JavaScript \<^verbatim>\<open>Map\<close> (and a Python \<^verbatim>\<open>dict\<close>) iterates in insertion order, and
  setting a key that is present replaces the value where the key stands: an association
  list with \<^const>\<open>AList.update\<close>.
\<close>

type_synonym ('k, 'v) omap = "('k \<times> 'v) list"

definition mapSet :: "('k, 'v) omap \<Rightarrow> 'k \<Rightarrow> 'v \<Rightarrow> ('k, 'v) omap" where
  "mapSet m key v = AList.update key v m"

definition mapGet :: "('k, 'v) omap \<Rightarrow> 'k \<Rightarrow> 'v option" where
  "mapGet m key = map_of m key"

text \<open>\<^verbatim>\<open>xs.forEach((x, i) => ...)\<close>, the callback threading the state it mutates.\<close>

definition forEach :: "'a list \<Rightarrow> ('a \<Rightarrow> nat \<Rightarrow> 's \<Rightarrow> 's) \<Rightarrow> 's \<Rightarrow> 's" where
  "forEach xs f s = fold (\<lambda>(i, x). f x i) (enumerate 0 xs) s"

subsection \<open>Sorting and slicing\<close>

text \<open>
  \<^verbatim>\<open>Array.prototype.sort(comparefn)\<close> is stable; a comparator result that is \<open>NaN\<close>
  counts as \<open>0\<close>. \<open>sortBy\<close> is the stable insertion sort: an element moves behind
  another only where the comparator is positive. For a consistent comparator this is the
  one order a stable sort can return; for an inconsistent one (a \<open>NaN\<close> score)
  ECMAScript leaves the order to the implementation, and this is one such order.
\<close>

fun insertBy :: "('a \<Rightarrow> 'a \<Rightarrow> jsnum) \<Rightarrow> 'a \<Rightarrow> 'a list \<Rightarrow> 'a list" where
  "insertBy cmp x [] = [x]"
| "insertBy cmp x (y # ys) =
     (if isPositive (cmp x y) then y # insertBy cmp x ys else x # y # ys)"

definition sortBy :: "('a \<Rightarrow> 'a \<Rightarrow> jsnum) \<Rightarrow> 'a list \<Rightarrow> 'a list" where
  "sortBy cmp xs = foldr (insertBy cmp) xs []"

text \<open>
  \<^verbatim>\<open>xs.slice(0, end)\<close> for an integer \<open>end\<close>: a negative \<open>end\<close> counts from the
  end of the array. Python's \<^verbatim>\<open>xs[:end]\<close> is the same function.
\<close>

definition slice0 :: "'a list \<Rightarrow> int \<Rightarrow> 'a list" where
  "slice0 xs end =
     (let len = int (length xs);
          final = (if end < 0 then max (len + end) 0 else min end len)
      in take (nat final) xs)"

subsection \<open>rrfFusion\<close>

text \<open>
  The body of both \<^verbatim>\<open>forEach\<close> callbacks of \<^verbatim>\<open>rrfFusion\<close>:
  \<^verbatim>\<open>scores.set(row.id, (scores.get(row.id) ?? 0) + w / (k + i + 1))\<close> and
  \<^verbatim>\<open>contentMap.set(row.id, row.content)\<close>. The numerator \<open>w\<close> is the literal \<open>1\<close> in
  \<^verbatim>\<open>rrfFusion\<close>, and \<^verbatim>\<open>keywordWeight\<close> or \<^verbatim>\<open>semanticWeight\<close> in the section
  "Weighting Keyword vs Semantic". The divisor, the quotient and the sum are exact
  here; \<open>addScoreWith\<close> below is the same step with every operation rounded.
\<close>

definition addScore :: "rat \<Rightarrow> rat \<Rightarrow> Row \<Rightarrow> nat \<Rightarrow> (int, jsnum) omap \<Rightarrow> (int, jsnum) omap" where
  "addScore w k row i scores =
     mapSet scores (row_id row)
       ((case mapGet scores (row_id row) of Some s \<Rightarrow> s | None \<Rightarrow> 0) + jsDiv w (k + of_nat i + 1))"

definition setContent :: "Row \<Rightarrow> (int, string) omap \<Rightarrow> (int, string) omap" where
  "setContent row contentMap = mapSet contentMap (row_id row) (content row)"

definition fusionStep ::
  "rat \<Rightarrow> rat \<Rightarrow> Row \<Rightarrow> nat \<Rightarrow> (int, jsnum) omap \<times> (int, string) omap
     \<Rightarrow> (int, jsnum) omap \<times> (int, string) omap" where
  "fusionStep w k row i st = (addScore w k row i (fst st), setContent row (snd st))"

text \<open>The comparator \<^verbatim>\<open>(a, b) => b[1] - a[1]\<close> on the entries of \<^verbatim>\<open>scores\<close>.\<close>

definition byScoreDesc :: "int \<times> jsnum \<Rightarrow> int \<times> jsnum \<Rightarrow> jsnum" where
  "byScoreDesc a b = jsSub (snd b) (snd a)"

text \<open>
  \<^verbatim>\<open>.map(([id, score]) => ({ id, content: contentMap.get(id)!, score }))\<close>. The
  lookup never misses: both maps hold the same keys (\<open>contentMap_has_key\<close> below).
\<close>

definition toResult :: "(int, string) omap \<Rightarrow> int \<times> jsnum \<Rightarrow> Result" where
  "toResult contentMap e =
     \<lparr>row_id = fst e, content = the (mapGet contentMap (fst e)), score = snd e\<rparr>"

text \<open>
  \<^verbatim>\<open>rrfFusion\<close> with the weighted contributions of the section "Weighting Keyword vs
  Semantic" in its two loops.
\<close>

definition rrfFusionWeighted ::
  "Row list \<Rightarrow> Row list \<Rightarrow> rat \<Rightarrow> rat \<Rightarrow> rat \<Rightarrow> int \<Rightarrow> Result list" where
  "rrfFusionWeighted keywordResults semanticResults k keywordWeight semanticWeight limit =
     (let st0 = ([], []);
          st1 = forEach keywordResults (fusionStep keywordWeight k) st0;
          st2 = forEach semanticResults (fusionStep semanticWeight k) st1;
          scores = fst st2;
          contentMap = snd st2
      in map (toResult contentMap) (slice0 (sortBy byScoreDesc scores) limit))"

text \<open>\<^verbatim>\<open>rrfFusion\<close> as the guide gives it: both contributions are \<^verbatim>\<open>1 / (k + i + 1)\<close>.\<close>

definition rrfFusion :: "Row list \<Rightarrow> Row list \<Rightarrow> rat \<Rightarrow> int \<Rightarrow> Result list" where
  "rrfFusion keywordResults semanticResults k limit =
     (let st0 = ([], []);
          st1 = forEach keywordResults (fusionStep 1 k) st0;
          st2 = forEach semanticResults (fusionStep 1 k) st1;
          scores = fst st2;
          contentMap = snd st2
      in map (toResult contentMap) (slice0 (sortBy byScoreDesc scores) limit))"

text \<open>
  The two loops of the section "Weighting Keyword vs Semantic" on their own: they fill
  \<^verbatim>\<open>scores\<close> only.
\<close>

definition weightedScores :: "Row list \<Rightarrow> Row list \<Rightarrow> rat \<Rightarrow> rat \<Rightarrow> rat \<Rightarrow> (int, jsnum) omap" where
  "weightedScores keywordResults semanticResults k keywordWeight semanticWeight =
     forEach semanticResults (addScore semanticWeight k)
       (forEach keywordResults (addScore keywordWeight k) [])"

subsection \<open>The fusion over the arithmetic of doubles\<close>

text \<open>
  The two operations on doubles that the loops use: \<open>fadd ar a b\<close> is the double
  \<^verbatim>\<open>a + b\<close> and \<open>fdiv ar a b\<close> the double \<^verbatim>\<open>a / b\<close>, each rounded as the
  arithmetic \<open>ar\<close> rounds. What is proved for every \<open>ar\<close>, or for every \<open>ar\<close> with
  a property that IEEE 754 has, holds of the doubles the code computes.
\<close>

record double_ops =
  fadd :: "jsnum \<Rightarrow> jsnum \<Rightarrow> jsnum"
  fdiv :: "jsnum \<Rightarrow> jsnum \<Rightarrow> jsnum"

text \<open>
  \<^verbatim>\<open>scores.set(row.id, (scores.get(row.id) ?? 0) + w / (k + i + 1))\<close> with every
  operation of \<open>ar\<close>: \<^verbatim>\<open>k + i\<close>, then \<^verbatim>\<open>+ 1\<close>, then the division, then the
  addition to the score so far. The index \<open>i\<close> is an exact double. \<open>k\<close> and \<open>w\<close>
  are any numbers.
\<close>

definition addScoreWith ::
  "double_ops \<Rightarrow> jsnum \<Rightarrow> jsnum \<Rightarrow> Row \<Rightarrow> nat \<Rightarrow> (int, jsnum) omap \<Rightarrow> (int, jsnum) omap" where
  "addScoreWith ar w k row i scores =
     mapSet scores (row_id row)
       (fadd ar (case mapGet scores (row_id row) of Some s \<Rightarrow> s | None \<Rightarrow> Num 0)
          (fdiv ar w (fadd ar (fadd ar k (Num (of_nat i))) (Num 1))))"

definition fusionStepWith ::
  "double_ops \<Rightarrow> jsnum \<Rightarrow> jsnum \<Rightarrow> Row \<Rightarrow> nat \<Rightarrow> (int, jsnum) omap \<times> (int, string) omap
     \<Rightarrow> (int, jsnum) omap \<times> (int, string) omap" where
  "fusionStepWith ar w k row i st = (addScoreWith ar w k row i (fst st), setContent row (snd st))"

definition rrfFusionWith :: "double_ops \<Rightarrow> Row list \<Rightarrow> Row list \<Rightarrow> jsnum \<Rightarrow> int \<Rightarrow> Result list" where
  "rrfFusionWith ar keywordResults semanticResults k limit =
     (let st0 = ([], []);
          st1 = forEach keywordResults (fusionStepWith ar (Num 1) k) st0;
          st2 = forEach semanticResults (fusionStepWith ar (Num 1) k) st1;
          scores = fst st2;
          contentMap = snd st2
      in map (toResult contentMap) (slice0 (sortBy byScoreDesc scores) limit))"

definition rrfFusionWeightedWith ::
  "double_ops \<Rightarrow> Row list \<Rightarrow> Row list \<Rightarrow> jsnum \<Rightarrow> jsnum \<Rightarrow> jsnum \<Rightarrow> int \<Rightarrow> Result list" where
  "rrfFusionWeightedWith ar keywordResults semanticResults k keywordWeight semanticWeight limit =
     (let st0 = ([], []);
          st1 = forEach keywordResults (fusionStepWith ar keywordWeight k) st0;
          st2 = forEach semanticResults (fusionStepWith ar semanticWeight k) st1;
          scores = fst st2;
          contentMap = snd st2
      in map (toResult contentMap) (slice0 (sortBy byScoreDesc scores) limit))"

definition scoresWith ::
  "double_ops \<Rightarrow> Row list \<Rightarrow> Row list \<Rightarrow> jsnum \<Rightarrow> jsnum \<Rightarrow> jsnum \<Rightarrow> (int, jsnum) omap" where
  "scoresWith ar keywordResults semanticResults k keywordWeight semanticWeight =
     forEach semanticResults (addScoreWith ar semanticWeight k)
       (forEach keywordResults (addScoreWith ar keywordWeight k) [])"

text \<open>
  The exact arithmetic: no rounding. Division of and by the infinities and \<open>NaN\<close> is as
  IEEE 754 has it.
\<close>

fun exactDiv :: "jsnum \<Rightarrow> jsnum \<Rightarrow> jsnum" where
  "exactDiv (Num a) (Num b) = jsDiv a b"
| "exactDiv NaN _ = NaN"
| "exactDiv _ NaN = NaN"
| "exactDiv (Num a) _ = Num 0"
| "exactDiv PosInfinity (Num b) = (if 0 \<le> b then PosInfinity else NegInfinity)"
| "exactDiv NegInfinity (Num b) = (if 0 \<le> b then NegInfinity else PosInfinity)"
| "exactDiv _ _ = NaN"

definition exactOps :: double_ops where
  "exactOps = \<lparr>fadd = (+), fdiv = exactDiv\<rparr>"

text \<open>
  A coarse arithmetic, to see rounding at work on small inputs: every finite result is
  rounded to the nearest multiple of \<open>1/1024\<close>.
\<close>

definition toGrid :: "rat \<Rightarrow> rat" where
  "toGrid r = of_int (round (r * 1024)) / 1024"

fun roundNum :: "jsnum \<Rightarrow> jsnum" where
  "roundNum (Num r) = Num (toGrid r)"
| "roundNum x = x"

definition gridOps :: double_ops where
  "gridOps = \<lparr>fadd = (\<lambda>a b. roundNum (a + b)), fdiv = (\<lambda>a b. roundNum (exactDiv a b))\<rparr>"

subsection \<open>rrf\_fusion (the Python snippet)\<close>

text \<open>
  Python raises \<^verbatim>\<open>ZeroDivisionError\<close> on \<^verbatim>\<open>1 / (k + rank)\<close> when \<^verbatim>\<open>k + rank\<close> is
  zero, so its scores are always finite. \<open>py_for\<close> is one
  \<^verbatim>\<open>for rank, row in enumerate(rows, start=1)\<close> loop.
\<close>

datatype py_error = ZeroDivisionError

record py_result = Row +
  py_score :: rat

fun py_for ::
  "rat \<Rightarrow> Row list \<Rightarrow> nat \<Rightarrow> (int, rat) omap \<times> (int, string) omap
     \<Rightarrow> py_error + ((int, rat) omap \<times> (int, string) omap)" where
  "py_for k [] rank st = Inr st"
| "py_for k (row # rows) rank st =
     (if k + of_nat rank = 0 then Inl ZeroDivisionError
      else py_for k rows (rank + 1)
        (mapSet (fst st) (row_id row)
           ((case mapGet (fst st) (row_id row) of Some s \<Rightarrow> s | None \<Rightarrow> 0) + 1 / (k + of_nat rank)),
         mapSet (snd st) (row_id row) (content row)))"

text \<open>
  \<^verbatim>\<open>sorted(scores, key=scores.get, reverse=True)[:limit]\<close>: Python's sort is stable,
  also with \<^verbatim>\<open>reverse=True\<close>, which is the stable ascending sort on the negated key.
\<close>

definition rrf_fusion :: "Row list \<Rightarrow> Row list \<Rightarrow> rat \<Rightarrow> int \<Rightarrow> py_error + py_result list" where
  "rrf_fusion keyword_results semantic_results k limit =
     (case py_for k keyword_results 1 ([], []) of
        Inl e \<Rightarrow> Inl e
      | Inr st1 \<Rightarrow>
          (case py_for k semantic_results 1 st1 of
             Inl e \<Rightarrow> Inl e
           | Inr st2 \<Rightarrow>
               (let scores = fst st2;
                    content_map = snd st2;
                    sorted_ids = slice0 (sort_key (\<lambda>i. - the (mapGet scores i)) (map fst scores)) limit
                in Inr (map (\<lambda>i. \<lparr>row_id = i, content = the (mapGet content_map i),
                                   py_score = the (mapGet scores i)\<rparr>) sorted_ids))))"

subsection \<open>Notions the properties are stated with\<close>

text \<open>The position at which an id is first met in a list of ids (its length when absent).\<close>

definition firstIndex :: "'a list \<Rightarrow> 'a \<Rightarrow> nat" where
  "firstIndex xs a = length (takeWhile (\<lambda>x. x \<noteq> a) xs)"

text \<open>The ids of a list in the order they are first met.\<close>

fun firstSeen :: "'a list \<Rightarrow> 'a list" where
  "firstSeen [] = []"
| "firstSeen (x # xs) = x # filter (\<lambda>y. y \<noteq> x) (firstSeen xs)"




text \<open>
  The order the comparator \<^verbatim>\<open>(a, b) => b[1] - a[1]\<close> sorts scores by, as a key: the
  larger score first. (Pairs are ordered lexicographically.)
\<close>

fun sortKey :: "jsnum \<Rightarrow> nat \<times> rat" where
  "sortKey PosInfinity = (0, 0)"
| "sortKey (Num r) = (1, - r)"
| "sortKey NegInfinity = (2, 0)"
| "sortKey NaN = (3, 0)"

text \<open>
  What a list whose rows all have different ids contributes to each id: the quotient
  \<^verbatim>\<open>w / (k + i + 1)\<close> of the position \<open>i\<close> (counted from \<open>n\<close>) that holds the id.
\<close>

definition contributionWith ::
  "double_ops \<Rightarrow> jsnum \<Rightarrow> jsnum \<Rightarrow> Row list \<Rightarrow> nat \<Rightarrow> int \<Rightarrow> jsnum option" where
  "contributionWith ar w k rows n =
     map_of (map (\<lambda>(i, row). (row_id row, fdiv ar w (fadd ar (fadd ar k (Num (of_nat i))) (Num 1))))
       (enumerate n rows))"

text \<open>
  The fusion of one ranked list alone: every row in its place, with the score
  \<^verbatim>\<open>w / (k + rank)\<close> of its 1-based rank.
\<close>

definition singleListResults :: "rat \<Rightarrow> rat \<Rightarrow> Row list \<Rightarrow> Result list" where
  "singleListResults w k rows =
     map (\<lambda>(i, row). \<lparr>row_id = row_id row, content = content row,
                       score = Num (w / (k + of_nat i + 1))\<rparr>) (enumerate 0 rows)"

section \<open>The search\_docs tool (src/apis/searchDocs.ts)\<close>

subsection \<open>Strings\<close>

text \<open>
  A JavaScript string is a sequence of UTF-16 code units. \<^verbatim>\<open>String.prototype.trim\<close>
  strips the code points of \<^verbatim>\<open>WhiteSpace\<close> and \<^verbatim>\<open>LineTerminator\<close> from both ends:
  TAB, LF, VT, FF, CR, SP, NBSP, the other space separators of Unicode, LS, PS and
  ZWNBSP, all of the Basic Multilingual Plane.
\<close>

type_synonym jsstring = "16 word list"

definition isWhiteSpace :: "16 word \<Rightarrow> bool" where
  "isWhiteSpace c =
     (c \<in> {0x9, 0xA, 0xB, 0xC, 0xD, 0x20, 0xA0, 0x1680, 0x2028, 0x2029, 0x202F, 0x205F,
            0x3000, 0xFEFF}
      \<or> (0x2000 \<le> c \<and> c \<le> 0x200A))"

definition trim :: "jsstring \<Rightarrow> jsstring" where
  "trim s = rev (dropWhile isWhiteSpace (rev (dropWhile isWhiteSpace s)))"

subsection \<open>Input, external calls and the tool function\<close>

text \<open>
  The input schema: the enums are closed by zod, \<^verbatim>\<open>limit\<close> is an integer
  (\<^verbatim>\<open>z.coerce.number().int()\<close>). \<^verbatim>\<open>latest_pg_version\<close> is the last of
  \<^verbatim>\<open>pg_versions\<close>.
\<close>

datatype source = tiger | postgres

datatype search_type = semantic | keyword

datatype pg_version = V14 | V15 | V16 | V17 | V18

datatype version = Pg pg_version | latest

definition latest_pg_version :: pg_version where
  "latest_pg_version = V18"

record search_input =
  source :: source
  search_type :: search_type
  query :: jsstring
  version :: version
  limit :: int

text \<open>
  The four SQL statements, each with the schema name it interpolates, and the values
  bound to their placeholders.
\<close>

datatype sql =
    TimescaleChunksByDistance string
  | PostgresChunksByDistance string
  | TimescaleChunksByBm25 string
  | PostgresChunksByBm25 string

datatype param = PJson "rat list" | PString jsstring | PVersion pg_version | PNumber int

datatype exn = Error string

text \<open>
  The calls that leave the process: \<^verbatim>\<open>embed\<close> (the embedding model) and
  \<^verbatim>\<open>pgPool.query\<close>. Each may reject; the tool function does not catch.
\<close>

datatype call = Embed jsstring | Query sql "param list"

record 'row server =
  embed :: "jsstring \<Rightarrow> exn + rat list"
  pgPool_query :: "sql \<Rightarrow> param list \<Rightarrow> exn + 'row list"
  schema :: string

text \<open>
  \<^verbatim>\<open>fn\<close> of \<^verbatim>\<open>searchDocsFactory\<close>: the calls it issued, in order, and what it returned
  or threw. The branches for an unsupported \<^verbatim>\<open>source\<close> or \<^verbatim>\<open>search_type\<close> are
  unreachable by type.
\<close>

definition runQuery ::
  "'row server \<Rightarrow> call list \<Rightarrow> sql \<Rightarrow> param list \<Rightarrow> call list \<times> (exn + 'row list)" where
  "runQuery ctx calls stmt ps = (calls @ [Query stmt ps], pgPool_query ctx stmt ps)"

definition search_docs :: "'row server \<Rightarrow> search_input \<Rightarrow> call list \<times> (exn + 'row list)" where
  "search_docs ctx inp =
     (let limit' = (if limit inp > 0 then limit inp else 10) in
      if trim (query inp) = [] then ([], Inl (Error ''Query must be a non-empty string.''))
      else
        let version' = (case version inp of latest \<Rightarrow> latest_pg_version | Pg v \<Rightarrow> v) in
        case search_type inp of
          semantic \<Rightarrow>
            (case embed ctx (query inp) of
               Inl e \<Rightarrow> ([Embed (query inp)], Inl e)
             | Inr embedding \<Rightarrow>
                 (case source inp of
                    tiger \<Rightarrow>
                      runQuery ctx [Embed (query inp)] (TimescaleChunksByDistance (schema ctx))
                        [PJson embedding, PNumber limit']
                  | postgres \<Rightarrow>
                      runQuery ctx [Embed (query inp)] (PostgresChunksByDistance (schema ctx))
                        [PJson embedding, PVersion version', PNumber limit']))
        | keyword \<Rightarrow>
            (case source inp of
               tiger \<Rightarrow>
                 runQuery ctx [] (TimescaleChunksByBm25 (schema ctx))
                   [PString (query inp), PNumber limit']
             | postgres \<Rightarrow>
                 runQuery ctx [] (PostgresChunksByBm25 (schema ctx))
                   [PString (query inp), PVersion version', PNumber limit']))"

section \<open>Properties of the fusion\<close>

lemma rrfFusion_weights_one:
  "rrfFusion kw sem k lmt = rrfFusionWeighted kw sem k 1 1 lmt"
  by (simp add: rrfFusion_def rrfFusionWeighted_def)

lemma forEach_Nil: "forEach [] f s = s"
  by (simp add: forEach_def)

lemma fold_fusionStep_fst:
  "fst (fold (\<lambda>(i, x). fusionStep w k x i) (enumerate n rows) st) =
     fold (\<lambda>(i, x). addScore w k x i) (enumerate n rows) (fst st)"
  by (induction rows arbitrary: n st) (simp_all add: fusionStep_def)

lemma fold_fusionStep_snd:
  "snd (fold (\<lambda>(i, x). fusionStep w k x i) (enumerate n rows) st) = fold setContent rows (snd st)"
  by (induction rows arbitrary: n st) (simp_all add: fusionStep_def)

lemma forEach_fusionStep:
  "forEach rows (fusionStep w k) st = (forEach rows (addScore w k) (fst st), fold setContent rows (snd st))"
  by (simp add: forEach_def prod_eq_iff fold_fusionStep_fst fold_fusionStep_snd)

lemma keys_mapSet:
  "map fst (mapSet m key v) = (if key \<in> set (map fst m) then map fst m else map fst m @ [key])"
  by (simp add: mapSet_def update_keys)

lemma keys_addScore_fold:
  "map fst (fold (\<lambda>(i, x). addScore w k x i) (enumerate n rows) m) =
     fold (\<lambda>x ks. if x \<in> set ks then ks else ks @ [x]) (map row_id rows) (map fst m)"
  by (induction rows arbitrary: n m) (simp_all add: addScore_def keys_mapSet)

lemma keys_setContent_fold:
  "map fst (fold setContent rows m) =
     fold (\<lambda>x ks. if x \<in> set ks then ks else ks @ [x]) (map row_id rows) (map fst m)"
  by (induction rows arbitrary: m) (simp_all add: setContent_def keys_mapSet)

lemma keys_fold_firstSeen:
  "fold (\<lambda>x ks. if x \<in> set ks then ks else ks @ [x]) xs ks =
     ks @ filter (\<lambda>y. y \<notin> set ks) (firstSeen xs)"
proof (induction xs arbitrary: ks)
  case Nil
  then show ?case by simp
next
  case (Cons a xs)
  show ?case
  proof (cases "a \<in> set ks")
    case True
    have "filter (\<lambda>y. y \<notin> set ks) (filter (\<lambda>y. y \<noteq> a) (firstSeen xs)) =
          filter (\<lambda>y. y \<notin> set ks) (firstSeen xs)"
      using True by (auto intro: filter_cong)
    with True Cons.IH [of ks] show ?thesis by simp
  next
    case False
    have "filter (\<lambda>y. y \<notin> set (ks @ [a])) (firstSeen xs) =
          filter (\<lambda>y. y \<notin> set ks) (filter (\<lambda>y. y \<noteq> a) (firstSeen xs))"
      by (auto intro: filter_cong)
    with False Cons.IH [of "ks @ [a]"] show ?thesis by simp
  qed
qed

lemma set_firstSeen: "set (firstSeen xs) = set xs"
  by (induction xs) auto

lemma distinct_firstSeen: "distinct (firstSeen xs)"
  by (induction xs) (auto simp: set_firstSeen)

lemma set_insertBy: "set (insertBy cmp x ys) = insert x (set ys)"
  by (induction ys) auto

lemma length_insertBy: "length (insertBy cmp x ys) = Suc (length ys)"
  by (induction ys) auto

lemma distinct_insertBy: "distinct (insertBy cmp x ys) = (x \<notin> set ys \<and> distinct ys)"
  by (induction ys) (auto simp: set_insertBy)

lemma set_sortBy: "set (sortBy cmp xs) = set xs"
  by (induction xs) (simp_all add: sortBy_def set_insertBy)

lemma length_sortBy: "length (sortBy cmp xs) = length xs"
  by (induction xs) (simp_all add: sortBy_def length_insertBy)

lemma distinct_sortBy: "distinct (sortBy cmp xs) = distinct xs"
  by (induction xs) (simp_all add: sortBy_def distinct_insertBy set_insertBy set_sortBy[unfolded sortBy_def])

lemma map_fst_insertBy_distinct:
  "distinct (map fst (insertBy cmp x ys)) = (fst x \<notin> fst ` set ys \<and> distinct (map fst ys))"
  by (induction ys) (auto simp: set_insertBy)

lemma distinct_keys_sortBy: "distinct (map fst (sortBy cmp xs)) = distinct (map fst xs)"
  by (induction xs) (simp_all add: sortBy_def map_fst_insertBy_distinct set_sortBy[unfolded sortBy_def])

lemma slice0_nonneg: "0 \<le> e \<Longrightarrow> slice0 xs e = take (nat e) xs"
  by (simp add: slice0_def Let_def min_def)

lemma slice0_all: "int (length xs) \<le> e \<Longrightarrow> slice0 xs e = xs"
  by (simp add: slice0_def Let_def)

lemma slice0_take: "slice0 xs e = take (if 0 \<le> e then nat e else length xs - nat (- e)) xs"
proof -
  have "e < 0 \<Longrightarrow> nat (max (int (length xs) + e) 0) = length xs - nat (- e)"
    by arith
  then show ?thesis
    by (auto simp add: slice0_def Let_def min_def)
qed

lemma set_slice0: "set (slice0 xs e) \<subseteq> set xs"
  by (simp add: slice0_def Let_def set_take_subset)

lemma length_slice0:
  "length (slice0 xs e) = (if 0 \<le> e then min (nat e) (length xs) else length xs - nat (- e))"
  by (auto simp add: slice0_take)

lemma rrfFusionWeighted_unfold:
  "rrfFusionWeighted kw sem k wk ws lmt =
     map (toResult (fold setContent (kw @ sem) []))
       (slice0 (sortBy byScoreDesc (weightedScores kw sem k wk ws)) lmt)"
  by (simp add: rrfFusionWeighted_def weightedScores_def forEach_fusionStep Let_def)

lemma keys_weightedScores:
  "map fst (weightedScores kw sem k wk ws) = firstSeen (map row_id (kw @ sem))"
proof -
  let ?step = "\<lambda>x ks. if x \<in> set ks then ks else ks @ [x]"
  have "map fst (weightedScores kw sem k wk ws) =
        fold ?step (map row_id sem) (fold ?step (map row_id kw) [])"
    by (simp add: weightedScores_def forEach_def keys_addScore_fold)
  also have "\<dots> = fold ?step (map row_id (kw @ sem)) []"
    by simp
  also have "\<dots> = firstSeen (map row_id (kw @ sem))"
    by (simp only: keys_fold_firstSeen) simp
  finally show ?thesis .
qed

lemma keys_contentMap:
  "map fst (fold setContent rows []) = firstSeen (map row_id rows)"
  by (simp add: keys_setContent_fold keys_fold_firstSeen)

lemma contentMap_has_key:
  assumes "e \<in> set (weightedScores kw sem k wk ws)"
  shows "\<exists>c. mapGet (fold setContent (kw @ sem) []) (fst e) = Some c"
proof -
  have "fst e \<in> set (map fst (weightedScores kw sem k wk ws))"
    using assms by simp
  then have "fst e \<in> set (map fst (fold setContent (kw @ sem) []))"
    by (simp only: keys_weightedScores keys_contentMap)
  then have "fst e \<in> dom (map_of (fold setContent (kw @ sem) []))"
    by (simp only: dom_map_of_conv_image_fst set_map)
  then show ?thesis
    by (auto simp: mapGet_def)
qed

lemma length_weightedScores:
  "length (weightedScores kw sem k wk ws) = card (row_id ` (set kw \<union> set sem))"
proof -
  have "length (weightedScores kw sem k wk ws) = length (map fst (weightedScores kw sem k wk ws))"
    by simp
  also have "\<dots> = card (set (firstSeen (map row_id (kw @ sem))))"
    by (simp only: keys_weightedScores distinct_card [OF distinct_firstSeen])
  finally show ?thesis
    by (simp add: set_firstSeen image_Un)
qed

lemma row_id_toResult: "row_id (toResult cm e) = fst e"
  by (simp add: toResult_def)

lemma score_toResult: "score (toResult cm e) = snd e"
  by (simp add: toResult_def)

lemma ids_rrfFusionWeighted:
  "map row_id (rrfFusionWeighted kw sem k wk ws lmt) =
     map fst (slice0 (sortBy byScoreDesc (weightedScores kw sem k wk ws)) lmt)"
  by (simp add: rrfFusionWeighted_unfold row_id_toResult comp_def)

lemma map_of_setContent_fold:
  "map_of (fold setContent rows m) x =
     (if x \<in> row_id ` set rows
      then Some (content (last (filter (\<lambda>row. row_id row = x) rows)))
      else map_of m x)"
proof (induction rows rule: rev_induct)
  case Nil
  then show ?case by simp
next
  case (snoc r rows)
  then show ?case
    by (auto simp: setContent_def mapSet_def update_conv')
qed

lemmas fusion_eval =
  rrfFusion_def rrfFusionWeighted_def forEach_def fusionStep_def addScore_def setContent_def
  mapSet_def mapGet_def jsDiv_def sortBy_def byScoreDesc_def slice0_def toResult_def
  zero_jsnum_def

subsection \<open>The concrete scenario\<close>

text \<open>
  Claim C1. For \<^verbatim>\<open>keywordResults = [{id:1}, {id:2}]\<close> and
  \<^verbatim>\<open>semanticResults = [{id:2}, {id:3}]\<close>, \<open>k = 60\<close>, equal weights \<open>1\<close> and
  \<open>limit = 10\<close>, the fusion returns exactly three results, in the order id 2, id 1,
  id 3, with the scores \<open>1/62 + 1/61\<close>, \<open>1/61\<close> and \<open>1/62\<close>, whatever the contents
  of the rows. This holds of \<^verbatim>\<open>rrfFusion\<close>, of its weighted form at the weights \<open>1\<close>,
  and of the Python \<^verbatim>\<open>rrf_fusion\<close>.
\<close>

theorem concrete_scenario:
  "map (\<lambda>r. (row_id r, score r))
     (rrfFusion [\<lparr>row_id = 1, content = c1\<rparr>, \<lparr>row_id = 2, content = c2\<rparr>]
                [\<lparr>row_id = 2, content = c3\<rparr>, \<lparr>row_id = 3, content = c4\<rparr>] 60 10) =
     [(2, Num (1 / 62 + 1 / 61)), (1, Num (1 / 61)), (3, Num (1 / 62))]
   \<and> map (\<lambda>r. (row_id r, score r))
     (rrfFusionWeighted [\<lparr>row_id = 1, content = c1\<rparr>, \<lparr>row_id = 2, content = c2\<rparr>]
                [\<lparr>row_id = 2, content = c3\<rparr>, \<lparr>row_id = 3, content = c4\<rparr>] 60 1 1 10) =
     [(2, Num (1 / 62 + 1 / 61)), (1, Num (1 / 61)), (3, Num (1 / 62))]
   \<and> map_sum id (map (\<lambda>r. (row_id r, py_score r)))
     (rrf_fusion [\<lparr>row_id = 1, content = c1\<rparr>, \<lparr>row_id = 2, content = c2\<rparr>]
                [\<lparr>row_id = 2, content = c3\<rparr>, \<lparr>row_id = 3, content = c4\<rparr>] 60 10) =
     Inr [(2, 1 / 62 + 1 / 61), (1, 1 / 61), (3, 1 / 62)]"
  by (simp add: fusion_eval rrf_fusion_def)

subsection \<open>Which content a fused result carries\<close>

lemma content_rrfFusionWeighted:
  assumes "r \<in> set (rrfFusionWeighted kw sem k wk ws lmt)"
  shows "row_id r \<in> row_id ` set (kw @ sem)"
    and "content r = content (last (filter (\<lambda>row. row_id row = row_id r) (kw @ sem)))"
proof -
  let ?scores = "weightedScores kw sem k wk ws"
  from assms obtain e where e: "e \<in> set (slice0 (sortBy byScoreDesc ?scores) lmt)"
    and r: "r = toResult (fold setContent (kw @ sem) []) e"
    by (auto simp: rrfFusionWeighted_unfold)
  from e have "e \<in> set ?scores"
    using set_slice0 [of "sortBy byScoreDesc ?scores" lmt] by (auto simp: set_sortBy)
  then have "fst e \<in> set (map fst ?scores)"
    by simp
  then have mem: "fst e \<in> row_id ` set (kw @ sem)"
    by (simp only: keys_weightedScores set_firstSeen set_map)
  then show "row_id r \<in> row_id ` set (kw @ sem)"
    by (simp add: r row_id_toResult)
  from mem have "map_of (fold setContent (kw @ sem) []) (fst e) =
      Some (content (last (filter (\<lambda>row. row_id row = fst e) (kw @ sem))))"
    by (simp only: map_of_setContent_fold if_True)
  then show "content r = content (last (filter (\<lambda>row. row_id row = row_id r) (kw @ sem)))"
    by (simp add: r toResult_def mapGet_def)
qed

text \<open>
  Claim C2, as the code has it. Both loops run \<^verbatim>\<open>contentMap.set(row.id, row.content)\<close>,
  so the second pass overwrites what the first recorded: for every id that appears in
  \<^verbatim>\<open>semanticResults\<close> (in particular every id that appears in both lists), the content
  of that id's fused result is the content of the last row of \<^verbatim>\<open>semanticResults\<close> with
  that id (last writer wins).
\<close>

theorem content_last_writer_wins:
  assumes "r \<in> set (rrfFusion keywordResults semanticResults k lmt)"
    and "row_id r \<in> row_id ` set semanticResults"
  shows "content r = content (last (filter (\<lambda>row. row_id row = row_id r) semanticResults))"
proof -
  from assms(2) have "filter (\<lambda>row. row_id row = row_id r) semanticResults \<noteq> []"
    by (auto simp: filter_empty_conv)
  with content_rrfFusionWeighted(2) [OF assms(1) [unfolded rrfFusion_weights_one]]
  show ?thesis by simp
qed

theorem content_last_writer_wins_witness:
  "\<lparr>row_id = 1, content = ''from semantic'', score = Num (2 / 61)\<rparr>
      \<in> set (rrfFusion [\<lparr>row_id = 1, content = ''from keyword''\<rparr>]
                        [\<lparr>row_id = 1, content = ''from semantic''\<rparr>] 60 10)
   \<and> content \<lparr>row_id = 1, content = ''from semantic'', score = Num (2 / 61)\<rparr> =
       content (last (filter (\<lambda>row. row_id row = 1) [\<lparr>row_id = 1, content = ''from semantic''\<rparr>]))"
  using content_last_writer_wins
    [of "\<lparr>row_id = 1, content = ''from semantic'', score = Num (2 / 61)\<rparr>"
        "[\<lparr>row_id = 1, content = ''from keyword''\<rparr>]"
        "[\<lparr>row_id = 1, content = ''from semantic''\<rparr>]" 60 10]
  by (simp add: fusion_eval)

theorem content_first_writer_counterexample:
  "rrfFusion [\<lparr>row_id = 1, content = ''from keyword''\<rparr>]
             [\<lparr>row_id = 1, content = ''from semantic''\<rparr>] 60 10 =
     [\<lparr>row_id = 1, content = ''from semantic'', score = Num (2 / 61)\<rparr>]"
  by (simp add: fusion_eval)

subsection \<open>No argument is validated\<close>

text \<open>
  Claim C3, as the code has it. The fusion validates none of its arguments and has no
  failing path: for every \<open>k\<close>, every pair of weights and every \<open>limit\<close>, also
  \<open>k \<le> 0\<close>, a negative weight or a negative \<open>limit\<close>, it returns a list. Its
  length is the number of distinct ids capped at \<open>limit\<close> when \<open>limit\<close> is not
  negative, and the number of distinct ids less \<open>-limit\<close> (not below zero) when it is:
  \<^verbatim>\<open>slice(0, limit)\<close> then drops entries from the end.
\<close>

theorem no_argument_validation:
  "length (rrfFusionWeighted keywordResults semanticResults k keywordWeight semanticWeight lmt) =
     (let n = card (row_id ` (set keywordResults \<union> set semanticResults))
      in if 0 \<le> lmt then min (nat lmt) n else n - nat (- lmt))"
  by (simp add: rrfFusionWeighted_unfold length_slice0 length_sortBy length_weightedScores Let_def)

theorem invalid_argument_counterexample:
  "rrfFusion [\<lparr>row_id = 1, content = ''a''\<rparr>] [] 0 10 =
     [\<lparr>row_id = 1, content = ''a'', score = Num 1\<rparr>]
   \<and> rrfFusion [\<lparr>row_id = 1, content = ''a''\<rparr>, \<lparr>row_id = 2, content = ''b''\<rparr>] [] 60 (- 1) =
     [\<lparr>row_id = 1, content = ''a'', score = Num (1 / 61)\<rparr>]
   \<and> rrfFusionWeighted [\<lparr>row_id = 1, content = ''a''\<rparr>] [] 60 (- 1) (- 1) 10 =
     [\<lparr>row_id = 1, content = ''a'', score = Num (- 1 / 61)\<rparr>]"
  by (simp add: fusion_eval)

subsection \<open>Union coverage\<close>

text \<open>
  Claim C5. Every id appears at most once in the fused output, and when \<open>limit\<close> is at
  least the number of distinct ids, the set of ids of the output is exactly the union
  of the ids of the two input lists. (This holds for all weights, so for positive ones.)
\<close>

theorem union_coverage:
  "distinct (map row_id (rrfFusionWeighted keywordResults semanticResults k keywordWeight semanticWeight lmt))
   \<and> (int (card (row_id ` (set keywordResults \<union> set semanticResults))) \<le> lmt \<longrightarrow>
        set (map row_id (rrfFusionWeighted keywordResults semanticResults k keywordWeight semanticWeight lmt)) =
          row_id ` set keywordResults \<union> row_id ` set semanticResults)"
proof -
  let ?scores = "weightedScores keywordResults semanticResults k keywordWeight semanticWeight"
  let ?sorted = "sortBy byScoreDesc ?scores"
  have keys: "distinct (map fst ?sorted)"
    by (simp only: distinct_keys_sortBy keys_weightedScores distinct_firstSeen)
  have "distinct (take n (map fst ?sorted))" for n
    using keys by (rule distinct_take)
  then have d: "distinct (map fst (slice0 ?sorted lmt))"
    by (simp add: slice0_take take_map)
  have "set (map fst ?sorted) = row_id ` set keywordResults \<union> row_id ` set semanticResults"
  proof -
    have "set (map fst ?sorted) = set (map fst ?scores)"
      by (simp add: set_sortBy)
    also have "\<dots> = set (map row_id (keywordResults @ semanticResults))"
      by (simp only: keys_weightedScores set_firstSeen)
    finally show ?thesis by (simp add: image_Un)
  qed
  moreover have "slice0 ?sorted lmt = ?sorted"
    if "int (card (row_id ` (set keywordResults \<union> set semanticResults))) \<le> lmt"
    using that by (intro slice0_all) (simp add: length_sortBy length_weightedScores)
  ultimately show ?thesis
    using d by (simp add: ids_rrfFusionWeighted)
qed

theorem union_coverage_witness:
  "int (card (row_id ` (set [\<lparr>row_id = 1, content = ''a''\<rparr>, \<lparr>row_id = 2, content = ''b''\<rparr>]
        \<union> set [\<lparr>row_id = 2, content = ''b''\<rparr>, \<lparr>row_id = 3, content = ''c''\<rparr>]))) \<le> 10
   \<and> set (map row_id (rrfFusionWeighted [\<lparr>row_id = 1, content = ''a''\<rparr>, \<lparr>row_id = 2, content = ''b''\<rparr>]
        [\<lparr>row_id = 2, content = ''b''\<rparr>, \<lparr>row_id = 3, content = ''c''\<rparr>] 60 1 2 10)) = {1, 2, 3}"
proof -
  have h: "int (card (row_id ` (set [\<lparr>row_id = 1, content = ''a''\<rparr>, \<lparr>row_id = 2, content = ''b''\<rparr>]
        \<union> set [\<lparr>row_id = 2, content = ''b''\<rparr>, \<lparr>row_id = 3, content = ''c''\<rparr>]))) \<le> 10"
    by (simp add: card_insert_if)
  show ?thesis
    using h union_coverage [of "[\<lparr>row_id = 1, content = ''a''\<rparr>, \<lparr>row_id = 2, content = ''b''\<rparr>]"
        "[\<lparr>row_id = 2, content = ''b''\<rparr>, \<lparr>row_id = 3, content = ''c''\<rparr>]" 60 1 2 10]
    by auto
qed

subsection \<open>The score of an id\<close>







lemma score_rrfFusionWeighted:
  assumes "r \<in> set (rrfFusionWeighted kw sem k wk ws lmt)"
  shows "mapGet (weightedScores kw sem k wk ws) (row_id r) = Some (score r)"
proof -
  let ?scores = "weightedScores kw sem k wk ws"
  from assms obtain e where e: "e \<in> set (slice0 (sortBy byScoreDesc ?scores) lmt)"
    and r: "r = toResult (fold setContent (kw @ sem) []) e"
    by (auto simp: rrfFusionWeighted_unfold)
  from e have "e \<in> set ?scores"
    using set_slice0 [of "sortBy byScoreDesc ?scores" lmt] by (auto simp: set_sortBy)
  moreover have "distinct (map fst ?scores)"
    by (simp only: keys_weightedScores distinct_firstSeen)
  ultimately have "map_of ?scores (fst e) = Some (snd e)"
    using map_of_is_SomeI [of ?scores "fst e" "snd e"] by simp
  then show ?thesis
    by (simp add: r mapGet_def row_id_toResult score_toResult)
qed





subsection \<open>Monotonicity in the semantic weight\<close>



subsection \<open>One list alone\<close>

lemma sortBy_Cons: "sortBy cmp (x # xs) = insertBy cmp x (sortBy cmp xs)"
  by (simp add: sortBy_def)

lemma sortBy_sorted:
  "sorted_wrt (\<lambda>a b. \<not> isPositive (cmp a b)) xs \<Longrightarrow> sortBy cmp xs = xs"
proof (induction xs)
  case Nil
  then show ?case by (simp add: sortBy_def)
next
  case (Cons x xs)
  then have "sortBy cmp (x # xs) = insertBy cmp x xs"
    by (simp add: sortBy_Cons)
  also have "\<dots> = x # xs"
    using Cons.prems by (cases xs) simp_all
  finally show ?case .
qed

lemma mapSet_fresh: "key \<notin> fst ` set m \<Longrightarrow> mapSet m key v = m @ [(key, v)]"
  by (induction m) (auto simp: mapSet_def)

lemma mapGet_fresh: "key \<notin> fst ` set m \<Longrightarrow> mapGet m key = None"
  by (simp add: mapGet_def map_of_eq_None_iff)

lemma scores_distinct_rows:
  assumes "distinct (map row_id rows)" and "row_id ` set rows \<inter> fst ` set m = {}"
  shows "fold (\<lambda>(i, row). addScore w k row i) (enumerate n rows) m =
           m @ map (\<lambda>(i, row). (row_id row, jsDiv w (k + of_nat i + 1))) (enumerate n rows)"
  using assms
proof (induction rows arbitrary: n m)
  case Nil
  then show ?case by simp
next
  case (Cons row rows)
  from Cons.prems(2) have fresh: "row_id row \<notin> fst ` set m"
    by auto
  then have step: "addScore w k row n m = m @ [(row_id row, jsDiv w (k + of_nat n + 1))]"
    by (simp add: addScore_def mapSet_fresh mapGet_fresh)
  have "row_id ` set rows \<inter> fst ` set (addScore w k row n m) = {}"
    using Cons.prems by (auto simp: step)
  with Cons.IH [of "addScore w k row n m" "Suc n"] Cons.prems(1) show ?case
    by (simp add: step)
qed

lemma contents_distinct_rows:
  assumes "distinct (map row_id rows)" and "row_id ` set rows \<inter> fst ` set m = {}"
  shows "fold setContent rows m = m @ map (\<lambda>row. (row_id row, content row)) rows"
  using assms
proof (induction rows arbitrary: m)
  case Nil
  then show ?case by simp
next
  case (Cons row rows)
  from Cons.prems(2) have fresh: "row_id row \<notin> fst ` set m"
    by auto
  then have step: "setContent row m = m @ [(row_id row, content row)]"
    by (simp add: setContent_def mapSet_fresh)
  have "row_id ` set rows \<inter> fst ` set (setContent row m) = {}"
    using Cons.prems by (auto simp: step)
  with Cons.IH [of "setContent row m"] Cons.prems(1) show ?case
    by (simp add: step)
qed

lemma single_list_sorted:
  assumes "0 < k" and "0 \<le> w"
  shows "sorted_wrt (\<lambda>a b. \<not> isPositive (byScoreDesc a b))
           (map (\<lambda>(i, row). (row_id row, jsDiv w (k + of_nat i + 1))) (enumerate 0 rows))"
proof -
  have "\<not> isPositive (jsSub (jsDiv w (k + of_nat j + 1)) (jsDiv w (k + of_nat i + 1)))"
    if "i < j" for i j :: nat
  proof -
    have pos: "0 < k + of_nat i + 1" "0 < k + of_nat j + 1"
      using assms(1) by (simp_all add: add_pos_nonneg)
    have "k + of_nat i + 1 \<le> k + of_nat j + 1"
      using that by simp
    then have "w / (k + of_nat j + 1) \<le> w / (k + of_nat i + 1)"
      using pos assms(2) by (intro divide_left_mono) simp_all
    then show ?thesis
      using pos by (simp add: jsDiv_def)
  qed
  then show ?thesis
    by (simp add: sorted_wrt_iff_nth_less nth_enumerate_eq byScoreDesc_def)
qed

lemma single_list_results:
  assumes "0 < k" and "0 \<le> w" and "distinct (map row_id rows)"
  shows "map (toResult (map (\<lambda>row. (row_id row, content row)) rows))
           (map (\<lambda>(i, row). (row_id row, jsDiv w (k + of_nat i + 1))) (enumerate n rows)) =
         map (\<lambda>(i, row). \<lparr>row_id = row_id row, content = content row,
                score = Num (w / (k + of_nat i + 1))\<rparr>) (enumerate n rows)"
proof -
  have "toResult (map (\<lambda>row. (row_id row, content row)) rows) (row_id row, jsDiv w (k + of_nat i + 1)) =
        \<lparr>row_id = row_id row, content = content row, score = Num (w / (k + of_nat i + 1))\<rparr>"
    if "row \<in> set rows" for i :: nat and row
  proof -
    have "0 < k + of_nat i + 1"
      using assms(1) by (simp add: add_pos_nonneg)
    moreover have "map_of (map (\<lambda>row. (row_id row, content row)) rows) (row_id row) =
        Some (content row)"
      using assms(3) that by (intro map_of_is_SomeI) (auto simp: comp_def)
    ultimately show ?thesis
      by (simp add: toResult_def mapGet_def jsDiv_def)
  qed
  then show ?thesis
    by (auto simp: in_set_enumerate_eq)
qed

lemma fusion_keyword_only:
  assumes "0 < k" and "0 \<le> wk" and "0 \<le> lmt" and "distinct (map row_id rows)"
  shows "rrfFusionWeighted rows [] k wk ws lmt = take (nat lmt) (singleListResults wk k rows)"
proof -
  have scores: "weightedScores rows [] k wk ws =
      map (\<lambda>(i, row). (row_id row, jsDiv wk (k + of_nat i + 1))) (enumerate 0 rows)"
    using scores_distinct_rows [OF assms(4), of "[]" wk k 0]
    by (simp add: weightedScores_def forEach_def)
  have contents: "fold setContent (rows @ []) [] = map (\<lambda>row. (row_id row, content row)) rows"
    using contents_distinct_rows [OF assms(4), of "[]"] by simp
  have "sortBy byScoreDesc (weightedScores rows [] k wk ws) = weightedScores rows [] k wk ws"
    unfolding scores using assms(1,2) by (intro sortBy_sorted single_list_sorted)
  then have "rrfFusionWeighted rows [] k wk ws lmt =
      take (nat lmt) (map (toResult (map (\<lambda>row. (row_id row, content row)) rows))
        (weightedScores rows [] k wk ws))"
    using assms(3) by (simp only: rrfFusionWeighted_unfold contents slice0_nonneg take_map)
  then show ?thesis
    unfolding scores using assms(1,2,4)
    by (simp only: single_list_results singleListResults_def)
qed

lemma fusion_semantic_only:
  assumes "0 < k" and "0 \<le> ws" and "0 \<le> lmt" and "distinct (map row_id rows)"
  shows "rrfFusionWeighted [] rows k wk ws lmt = take (nat lmt) (singleListResults ws k rows)"
proof -
  have scores: "weightedScores [] rows k wk ws =
      map (\<lambda>(i, row). (row_id row, jsDiv ws (k + of_nat i + 1))) (enumerate 0 rows)"
    using scores_distinct_rows [OF assms(4), of "[]" ws k 0]
    by (simp add: weightedScores_def forEach_def)
  have contents: "fold setContent ([] @ rows) [] = map (\<lambda>row. (row_id row, content row)) rows"
    using contents_distinct_rows [OF assms(4), of "[]"] by simp
  have "sortBy byScoreDesc (weightedScores [] rows k wk ws) = weightedScores [] rows k wk ws"
    unfolding scores using assms(1,2) by (intro sortBy_sorted single_list_sorted)
  then have "rrfFusionWeighted [] rows k wk ws lmt =
      take (nat lmt) (map (toResult (map (\<lambda>row. (row_id row, content row)) rows))
        (weightedScores [] rows k wk ws))"
    using assms(3) by (simp only: rrfFusionWeighted_unfold contents slice0_nonneg take_map)
  then show ?thesis
    unfolding scores using assms(1,2,4)
    by (simp only: single_list_results singleListResults_def)
qed

text \<open>
  Claim C4. For every valid \<open>k\<close> (positive), valid weights (not negative) and valid
  \<open>limit\<close> (not negative), the fusion returns a list also when one or both input lists
  are empty (it has no failing path): with both lists empty it returns the empty list,
  and with one list empty it returns what the other list alone gives: its rows in
  their order, each with the score \<^verbatim>\<open>weight / (k + rank)\<close> of its own list, cut at
  \<open>limit\<close>. (A ranked list holds every id once.)
\<close>

theorem empty_lists_ok:
  assumes "0 < k" and "0 \<le> keywordWeight" and "0 \<le> semanticWeight" and "0 \<le> lmt"
    and "distinct (map row_id rows)"
  shows "rrfFusionWeighted [] [] k keywordWeight semanticWeight lmt = []
       \<and> rrfFusionWeighted rows [] k keywordWeight semanticWeight lmt =
           take (nat lmt) (singleListResults keywordWeight k rows)
       \<and> rrfFusionWeighted [] rows k keywordWeight semanticWeight lmt =
           take (nat lmt) (singleListResults semanticWeight k rows)"
proof -
  have "rrfFusionWeighted [] [] k keywordWeight semanticWeight lmt = []"
    by (simp add: rrfFusionWeighted_def forEach_def sortBy_def slice0_def)
  with fusion_keyword_only [OF assms(1,2,4,5)] fusion_semantic_only [OF assms(1,3,4,5)]
  show ?thesis by simp
qed

theorem empty_lists_ok_witness:
  "(0 :: rat) < 60 \<and> (0 :: rat) \<le> 1 \<and> (0 :: rat) \<le> 2 \<and> (0 :: int) \<le> 1
   \<and> distinct (map row_id [\<lparr>row_id = 7, content = ''x''\<rparr>, \<lparr>row_id = 5, content = ''y''\<rparr>])
   \<and> rrfFusionWeighted [] [] 60 1 2 1 = []
   \<and> rrfFusionWeighted [\<lparr>row_id = 7, content = ''x''\<rparr>, \<lparr>row_id = 5, content = ''y''\<rparr>] [] 60 1 2 1 =
        [\<lparr>row_id = 7, content = ''x'', score = Num (1 / 61)\<rparr>]
   \<and> rrfFusionWeighted [] [\<lparr>row_id = 7, content = ''x''\<rparr>, \<lparr>row_id = 5, content = ''y''\<rparr>] 60 1 2 1 =
        [\<lparr>row_id = 7, content = ''x'', score = Num (2 / 61)\<rparr>]"
proof -
  have h: "(0 :: rat) < 60" "(0 :: rat) \<le> 1" "(0 :: rat) \<le> 2" "(0 :: int) \<le> 1"
    "distinct (map row_id [\<lparr>row_id = 7, content = ''x''\<rparr>, \<lparr>row_id = 5, content = ''y''\<rparr>])"
    by simp_all
  show ?thesis
    using h empty_lists_ok [OF h]
    by (simp add: singleListResults_def)
qed

subsection \<open>Encounter order\<close>

lemma firstIndex_Cons:
  "firstIndex (x # xs) a = (if x = a then 0 else Suc (firstIndex xs a))"
  by (simp add: firstIndex_def)

lemma firstSeen_order:
  "subseq [a, b] (firstSeen xs) \<Longrightarrow> a \<noteq> b \<Longrightarrow> firstIndex xs a < firstIndex xs b"
proof (induction xs)
  case Nil
  then show ?case by simp
next
  case (Cons x xs)
  let ?rest = "filter (\<lambda>y. y \<noteq> x) (firstSeen xs)"
  show ?case
  proof (cases "a = x")
    case True
    with Cons.prems(2) show ?thesis by (simp add: firstIndex_Cons)
  next
    case False
    with Cons.prems(1) have emb: "subseq [a, b] ?rest"
      by simp
    then have "b \<in> set ?rest"
      using list_emb_set [of "(=)" "[a, b]" ?rest b] by auto
    then have "b \<noteq> x" by simp
    have "subseq ?rest (firstSeen xs)"
      by (rule subseq_filter_left)
    with emb have "subseq [a, b] (firstSeen xs)"
      by (rule subseq_order.order_trans)
    with Cons.IH Cons.prems(2) have "firstIndex xs a < firstIndex xs b"
      by simp
    with False \<open>b \<noteq> x\<close> show ?thesis
      by (simp add: firstIndex_Cons)
  qed
qed

lemma subseq_nth_pair:
  "i < j \<Longrightarrow> j < length xs \<Longrightarrow> subseq [xs ! i, xs ! j] xs"
proof (induction xs arbitrary: i j)
  case Nil
  then show ?case by simp
next
  case (Cons x xs)
  from Cons.prems obtain j' where j: "j = Suc j'" and j': "j' < length xs"
    by (cases j) auto
  show ?case
  proof (cases i)
    case 0
    have "xs ! j' \<in> set xs" using j' by simp
    then have "subseq [xs ! j'] xs" by (simp add: subseq_singleton_left)
    then show ?thesis by (simp add: 0 j)
  next
    case (Suc i')
    with Cons.prems j have "i' < j'" by simp
    from Cons.IH [OF this j'] have "subseq [xs ! i', xs ! j'] (x # xs)"
      by (rule list_emb_Cons)
    then show ?thesis by (simp only: Suc j nth_Cons_Suc)
  qed
qed

subsection \<open>The fusion over any arithmetic\<close>

lemma fold_fusionStepWith_fst:
  "fst (fold (\<lambda>(i, x). fusionStepWith ar w k x i) (enumerate n rows) st) =
     fold (\<lambda>(i, x). addScoreWith ar w k x i) (enumerate n rows) (fst st)"
  by (induction rows arbitrary: n st) (simp_all add: fusionStepWith_def)

lemma fold_fusionStepWith_snd:
  "snd (fold (\<lambda>(i, x). fusionStepWith ar w k x i) (enumerate n rows) st) =
     fold setContent rows (snd st)"
  by (induction rows arbitrary: n st) (simp_all add: fusionStepWith_def)

lemma forEach_fusionStepWith:
  "forEach rows (fusionStepWith ar w k) st =
     (forEach rows (addScoreWith ar w k) (fst st), fold setContent rows (snd st))"
  by (simp add: forEach_def prod_eq_iff fold_fusionStepWith_fst fold_fusionStepWith_snd)

lemma rrfFusionWeightedWith_unfold:
  "rrfFusionWeightedWith ar kw sem k wk ws lmt =
     map (toResult (fold setContent (kw @ sem) []))
       (slice0 (sortBy byScoreDesc (scoresWith ar kw sem k wk ws)) lmt)"
  by (simp add: rrfFusionWeightedWith_def scoresWith_def forEach_fusionStepWith Let_def)

lemma rrfFusionWith_weights_one:
  "rrfFusionWith ar kw sem k lmt = rrfFusionWeightedWith ar kw sem k (Num 1) (Num 1) lmt"
  by (simp add: rrfFusionWith_def rrfFusionWeightedWith_def)

lemma keys_addScoreWith_fold:
  "map fst (fold (\<lambda>(i, x). addScoreWith ar w k x i) (enumerate n rows) m) =
     fold (\<lambda>x ks. if x \<in> set ks then ks else ks @ [x]) (map row_id rows) (map fst m)"
  by (induction rows arbitrary: n m) (simp_all add: addScoreWith_def keys_mapSet)

lemma keys_scoresWith:
  "map fst (scoresWith ar kw sem k wk ws) = firstSeen (map row_id (kw @ sem))"
proof -
  let ?step = "\<lambda>x ks. if x \<in> set ks then ks else ks @ [x]"
  have "map fst (scoresWith ar kw sem k wk ws) =
        fold ?step (map row_id sem) (fold ?step (map row_id kw) [])"
    by (simp add: scoresWith_def forEach_def keys_addScoreWith_fold)
  also have "\<dots> = fold ?step (map row_id (kw @ sem)) []"
    by simp
  also have "\<dots> = firstSeen (map row_id (kw @ sem))"
    by (simp only: keys_fold_firstSeen) simp
  finally show ?thesis .
qed

lemma addScoreWith_exactOps: "addScoreWith exactOps (Num w) (Num k) row i m = addScore w k row i m"
  by (simp add: addScoreWith_def addScore_def exactOps_def zero_jsnum_def option.case_eq_if)

lemma weightedScores_exactOps:
  "weightedScores kw sem k wk ws = scoresWith exactOps kw sem (Num k) (Num wk) (Num ws)"
proof -
  have "(\<lambda>(i, x). addScoreWith exactOps (Num w) (Num k) x i) = (\<lambda>(i, x). addScore w k x i)" for w
    by (simp add: fun_eq_iff addScoreWith_exactOps)
  then show ?thesis
    by (simp add: weightedScores_def scoresWith_def forEach_def)
qed

lemma rrfFusionWeighted_exactOps:
  "rrfFusionWeighted kw sem k wk ws lmt =
     rrfFusionWeightedWith exactOps kw sem (Num k) (Num wk) (Num ws) lmt"
  by (simp only: rrfFusionWeighted_unfold rrfFusionWeightedWith_unfold weightedScores_exactOps)

lemma rrfFusion_exactOps: "rrfFusion kw sem k lmt = rrfFusionWith exactOps kw sem (Num k) lmt"
  by (simp only: rrfFusion_weights_one rrfFusionWith_weights_one rrfFusionWeighted_exactOps)

lemma score_rrfFusionWeightedWith:
  assumes "r \<in> set (rrfFusionWeightedWith ar kw sem k wk ws lmt)"
  shows "mapGet (scoresWith ar kw sem k wk ws) (row_id r) = Some (score r)"
proof -
  let ?scores = "scoresWith ar kw sem k wk ws"
  from assms obtain e where e: "e \<in> set (slice0 (sortBy byScoreDesc ?scores) lmt)"
    and r: "r = toResult (fold setContent (kw @ sem) []) e"
    by (auto simp: rrfFusionWeightedWith_unfold)
  from e have "e \<in> set ?scores"
    using set_slice0 [of "sortBy byScoreDesc ?scores" lmt] by (auto simp: set_sortBy)
  moreover have "distinct (map fst ?scores)"
    by (simp only: keys_scoresWith distinct_firstSeen)
  ultimately have "map_of ?scores (fst e) = Some (snd e)"
    using map_of_is_SomeI [of ?scores "fst e" "snd e"] by simp
  then show ?thesis
    by (simp add: r mapGet_def row_id_toResult score_toResult)
qed

subsection \<open>Ties\<close>

lemma byScoreDesc_sortKey:
  "snd x \<noteq> NaN \<Longrightarrow> snd y \<noteq> NaN \<Longrightarrow>
     isPositive (byScoreDesc x y) = (\<not> sortKey (snd x) \<le> sortKey (snd y))"
  by (cases "snd x"; cases "snd y") (auto simp: byScoreDesc_def)

lemma insertBy_sortKey:
  assumes "snd x \<noteq> NaN" and "\<forall>y \<in> set ys. snd y \<noteq> NaN"
  shows "insertBy byScoreDesc x ys = insort_key (\<lambda>e. sortKey (snd e)) x ys"
  using assms(2)
proof (induction ys)
  case Nil
  then show ?case by simp
next
  case (Cons y ys)
  then have "isPositive (byScoreDesc x y) = (\<not> sortKey (snd x) \<le> sortKey (snd y))"
    using assms(1) by (intro byScoreDesc_sortKey) simp_all
  with Cons show ?case by simp
qed

lemma sortBy_sortKey:
  "\<forall>e \<in> set xs. snd e \<noteq> NaN \<Longrightarrow> sortBy byScoreDesc xs = sort_key (\<lambda>e. sortKey (snd e)) xs"
proof (induction xs)
  case Nil
  then show ?case by (simp add: sortBy_def)
next
  case (Cons x xs)
  then have "sortBy byScoreDesc xs = sort_key (\<lambda>e. sortKey (snd e)) xs"
    by simp
  moreover have "\<forall>y \<in> set (sort_key (\<lambda>e. sortKey (snd e)) xs). snd y \<noteq> NaN"
    using Cons.prems by simp
  moreover have "snd x \<noteq> NaN"
    using Cons.prems by simp
  ultimately show ?case
    by (simp add: sortBy_Cons insertBy_sortKey)
qed

lemma ties_with:
  assumes nan: "NaN \<notin> snd ` set (scoresWith ar kw sem k wk ws)" and ij: "i < j"
    and j: "j < length (rrfFusionWeightedWith ar kw sem k wk ws lmt)"
    and tie: "score (rrfFusionWeightedWith ar kw sem k wk ws lmt ! i) =
              score (rrfFusionWeightedWith ar kw sem k wk ws lmt ! j)"
  shows "firstIndex (map row_id (kw @ sem)) (row_id (rrfFusionWeightedWith ar kw sem k wk ws lmt ! i))
       < firstIndex (map row_id (kw @ sem)) (row_id (rrfFusionWeightedWith ar kw sem k wk ws lmt ! j))"
proof -
  let ?scores = "scoresWith ar kw sem k wk ws"
  let ?f = "\<lambda>e :: int \<times> jsnum. sortKey (snd e)"
  let ?S = "sort_key ?f ?scores"
  let ?cm = "fold setContent (kw @ sem) []"
  have sorted: "sortBy byScoreDesc ?scores = ?S"
    using nan by (intro sortBy_sortKey) force
  then obtain m where out: "rrfFusionWeightedWith ar kw sem k wk ws lmt = map (toResult ?cm) (take m ?S)"
    by (simp add: rrfFusionWeightedWith_unfold slice0_take)
  from j have jm: "j < m" and jS: "j < length ?S"
    by (simp_all add: out)
  with ij have im: "i < m" and iS: "i < length ?S"
    by simp_all
  let ?a = "?S ! i" and ?b = "?S ! j"
  have nth_i: "rrfFusionWeightedWith ar kw sem k wk ws lmt ! i = toResult ?cm ?a"
    using im iS by (simp add: out)
  have nth_j: "rrfFusionWeightedWith ar kw sem k wk ws lmt ! j = toResult ?cm ?b"
    using jm jS by (simp add: out)
  from tie have same: "?f ?b = ?f ?a"
    by (simp add: nth_i nth_j score_toResult)
  have "subseq [?a, ?b] ?S"
    using ij jS by (rule subseq_nth_pair)
  then have "subseq (filter (\<lambda>y. ?f y = ?f ?a) [?a, ?b]) (filter (\<lambda>y. ?f y = ?f ?a) ?S)"
    by (rule subseq_filter)
  moreover have "filter (\<lambda>y. ?f y = ?f ?a) [?a, ?b] = [?a, ?b]"
    by (simp only: filter.simps same refl if_True)
  moreover have "filter (\<lambda>y. ?f y = ?f ?a) ?S = filter (\<lambda>y. ?f y = ?f ?a) ?scores"
    by (rule sort_key_stable)
  ultimately have "subseq [?a, ?b] (filter (\<lambda>y. ?f y = ?f ?a) ?scores)"
    by (simp only:)
  moreover have "subseq (filter (\<lambda>y. ?f y = ?f ?a) ?scores) ?scores"
    by (rule subseq_filter_left)
  ultimately have "subseq [?a, ?b] ?scores"
    by (rule subseq_order.order_trans)
  then have "subseq (map fst [?a, ?b]) (map fst ?scores)"
    by (rule subseq_map)
  then have emb: "subseq [fst ?a, fst ?b] (firstSeen (map row_id (kw @ sem)))"
    by (simp add: keys_scoresWith)
  have "distinct (map fst (sortBy byScoreDesc ?scores))"
    by (simp only: distinct_keys_sortBy keys_scoresWith distinct_firstSeen)
  then have "distinct (map fst ?S)"
    by (simp only: sorted)
  from nth_eq_iff_index_eq [OF this, of i j] have "fst ?a \<noteq> fst ?b"
    using ij iS jS by simp
  with emb have "firstIndex (map row_id (kw @ sem)) (fst ?a) < firstIndex (map row_id (kw @ sem)) (fst ?b)"
    by (rule firstSeen_order)
  then show ?thesis
    by (simp add: nth_i nth_j row_id_toResult)
qed

lemmas fusion_with_eval =
  rrfFusionWith_def rrfFusionWeightedWith_def scoresWith_def fusionStepWith_def addScoreWith_def
  exactOps_def forEach_def setContent_def mapSet_def mapGet_def jsDiv_def sortBy_def
  byScoreDesc_def slice0_def toResult_def

text \<open>
  Claim C6, as the code has it. The sort compares scores only
  (\<^verbatim>\<open>(a, b) => b[1] - a[1]\<close>) and is stable, and the entries of \<^verbatim>\<open>scores\<close> stand in
  the order their ids were first met. So, whatever the arithmetic of doubles rounds to,
  and provided no score is \<open>NaN\<close>: whenever two entries of the fused output have equal
  score, the output orders them by original encounter order alone, keyword list first,
  then semantic list, each in the order supplied. The rank in the semantic list and the
  presence in it play no part. (The witness below is at the coarse arithmetic: rounding
  ties ids 3, 1 and 2, which then stand in encounter order, where exact scores would
  put id 2 before id 1.)
\<close>

theorem ties_keep_encounter_order:
  assumes "NaN \<notin> snd ` set (scoresWith ar keywordResults semanticResults k (Num 1) (Num 1))"
    and "i < j"
    and "j < length (rrfFusionWith ar keywordResults semanticResults k lmt)"
    and "score (rrfFusionWith ar keywordResults semanticResults k lmt ! i) =
         score (rrfFusionWith ar keywordResults semanticResults k lmt ! j)"
  shows "firstIndex (map row_id (keywordResults @ semanticResults))
           (row_id (rrfFusionWith ar keywordResults semanticResults k lmt ! i))
       < firstIndex (map row_id (keywordResults @ semanticResults))
           (row_id (rrfFusionWith ar keywordResults semanticResults k lmt ! j))"
proof -
  note out = assms(3,4) [unfolded rrfFusionWith_weights_one]
  show ?thesis
    unfolding rrfFusionWith_weights_one by (rule ties_with [OF assms(1,2) out])
qed

theorem ties_keep_encounter_order_witness:
  "NaN \<notin> snd ` set (scoresWith gridOps
        [\<lparr>row_id = 3, content = ''c''\<rparr>, \<lparr>row_id = 1, content = ''a''\<rparr>]
        [\<lparr>row_id = 2, content = ''b''\<rparr>] (Num 60) (Num 1) (Num 1))
   \<and> (1 :: nat) < 2
   \<and> map (\<lambda>r. (row_id r, score r)) (rrfFusionWith gridOps
        [\<lparr>row_id = 3, content = ''c''\<rparr>, \<lparr>row_id = 1, content = ''a''\<rparr>]
        [\<lparr>row_id = 2, content = ''b''\<rparr>] (Num 60) 10) =
       [(3, Num (17 / 1024)), (1, Num (17 / 1024)), (2, Num (17 / 1024))]
   \<and> map (\<lambda>r. (row_id r, score r)) (rrfFusionWith exactOps
        [\<lparr>row_id = 3, content = ''c''\<rparr>, \<lparr>row_id = 1, content = ''a''\<rparr>]
        [\<lparr>row_id = 2, content = ''b''\<rparr>] (Num 60) 10) =
       [(3, Num (1 / 61)), (2, Num (1 / 61)), (1, Num (1 / 62))]
   \<and> firstIndex (map row_id ([\<lparr>row_id = 3, content = ''c''\<rparr>, \<lparr>row_id = 1, content = ''a''\<rparr>]
          @ [\<lparr>row_id = 2, content = ''b''\<rparr>]))
         (row_id (rrfFusionWith gridOps
            [\<lparr>row_id = 3, content = ''c''\<rparr>, \<lparr>row_id = 1, content = ''a''\<rparr>]
            [\<lparr>row_id = 2, content = ''b''\<rparr>] (Num 60) 10 ! 1))
     < firstIndex (map row_id ([\<lparr>row_id = 3, content = ''c''\<rparr>, \<lparr>row_id = 1, content = ''a''\<rparr>]
          @ [\<lparr>row_id = 2, content = ''b''\<rparr>]))
         (row_id (rrfFusionWith gridOps
            [\<lparr>row_id = 3, content = ''c''\<rparr>, \<lparr>row_id = 1, content = ''a''\<rparr>]
            [\<lparr>row_id = 2, content = ''b''\<rparr>] (Num 60) 10 ! 2))"
proof -
  have out: "map (\<lambda>r. (row_id r, score r)) (rrfFusionWith gridOps
        [\<lparr>row_id = 3, content = ''c''\<rparr>, \<lparr>row_id = 1, content = ''a''\<rparr>]
        [\<lparr>row_id = 2, content = ''b''\<rparr>] (Num 60) 10) =
       [(3, Num (17 / 1024)), (1, Num (17 / 1024)), (2, Num (17 / 1024))]"
    by code_simp
  have exact: "map (\<lambda>r. (row_id r, score r)) (rrfFusionWith exactOps
        [\<lparr>row_id = 3, content = ''c''\<rparr>, \<lparr>row_id = 1, content = ''a''\<rparr>]
        [\<lparr>row_id = 2, content = ''b''\<rparr>] (Num 60) 10) =
       [(3, Num (1 / 61)), (2, Num (1 / 61)), (1, Num (1 / 62))]"
    by code_simp
  have h1: "NaN \<notin> snd ` set (scoresWith gridOps
        [\<lparr>row_id = 3, content = ''c''\<rparr>, \<lparr>row_id = 1, content = ''a''\<rparr>]
        [\<lparr>row_id = 2, content = ''b''\<rparr>] (Num 60) (Num 1) (Num 1))"
    by code_simp
  have h2: "(1 :: nat) < 2"
    by simp
  have h3: "2 < length (rrfFusionWith gridOps
        [\<lparr>row_id = 3, content = ''c''\<rparr>, \<lparr>row_id = 1, content = ''a''\<rparr>]
        [\<lparr>row_id = 2, content = ''b''\<rparr>] (Num 60) 10)"
    by code_simp
  have h4: "score (rrfFusionWith gridOps
        [\<lparr>row_id = 3, content = ''c''\<rparr>, \<lparr>row_id = 1, content = ''a''\<rparr>]
        [\<lparr>row_id = 2, content = ''b''\<rparr>] (Num 60) 10 ! 1) =
      score (rrfFusionWith gridOps
        [\<lparr>row_id = 3, content = ''c''\<rparr>, \<lparr>row_id = 1, content = ''a''\<rparr>]
        [\<lparr>row_id = 2, content = ''b''\<rparr>] (Num 60) 10 ! 2)"
    by code_simp
  from out exact h1 h2 ties_keep_encounter_order [OF h1 h2 h3 h4] show ?thesis
    by (simp only: simp_thms)
qed

theorem tie_break_counterexample:
  "map row_id (rrfFusion [\<lparr>row_id = 1, content = ''a''\<rparr>] [\<lparr>row_id = 2, content = ''b''\<rparr>] 60 10) = [1, 2]
   \<and> map score (rrfFusion [\<lparr>row_id = 1, content = ''a''\<rparr>] [\<lparr>row_id = 2, content = ''b''\<rparr>] 60 10) =
       [Num (1 / 61), Num (1 / 61)]
   \<and> 1 \<notin> row_id ` set [\<lparr>row_id = 2, content = ''b''\<rparr>]
   \<and> 2 \<in> row_id ` set [\<lparr>row_id = 2, content = ''b''\<rparr>]"
  by (simp add: fusion_eval)

subsection \<open>Swapping the lists under equal weights\<close>

lemma contributionWith_Cons:
  "contributionWith ar w k (row # rows) n x =
     (if row_id row = x then Some (fdiv ar w (fadd ar (fadd ar k (Num (of_nat n))) (Num 1)))
      else contributionWith ar w k rows (Suc n) x)"
  by (simp add: contributionWith_def)

lemma contributionWith_absent:
  "x \<notin> row_id ` set rows \<Longrightarrow> contributionWith ar w k rows n x = None"
  by (induction rows arbitrary: n) (simp_all add: contributionWith_Cons, simp add: contributionWith_def)

lemma contributionWith_quotient:
  "contributionWith ar w k rows n x = Some c \<Longrightarrow> \<exists>d. c = fdiv ar w d"
  by (induction rows arbitrary: n)
    (auto simp: contributionWith_Cons contributionWith_def split: if_splits)

lemma mapGet_addScoreWith:
  "mapGet (addScoreWith ar w k row i m) x =
     (if row_id row = x
      then Some (fadd ar (case mapGet m x of Some s \<Rightarrow> s | None \<Rightarrow> Num 0)
                  (fdiv ar w (fadd ar (fadd ar k (Num (of_nat i))) (Num 1))))
      else mapGet m x)"
  by (simp add: addScoreWith_def mapSet_def mapGet_def update_conv')

lemma mapGet_addScoreWith_fold:
  assumes "distinct (map row_id rows)"
  shows "mapGet (fold (\<lambda>(i, row). addScoreWith ar w k row i) (enumerate n rows) m) x =
     (case contributionWith ar w k rows n x of
        None \<Rightarrow> mapGet m x
      | Some c \<Rightarrow> Some (fadd ar (case mapGet m x of Some s \<Rightarrow> s | None \<Rightarrow> Num 0) c))"
  using assms
proof (induction rows arbitrary: n m)
  case Nil
  then show ?case by (simp add: contributionWith_def)
next
  case (Cons row rows)
  let ?m' = "addScoreWith ar w k row n m"
  from Cons.prems have d: "distinct (map row_id rows)" and fresh: "row_id row \<notin> row_id ` set rows"
    by simp_all
  have step: "mapGet (fold (\<lambda>(i, row). addScoreWith ar w k row i) (enumerate (Suc n) rows) ?m') x =
      (case contributionWith ar w k rows (Suc n) x of
         None \<Rightarrow> mapGet ?m' x
       | Some c \<Rightarrow> Some (fadd ar (case mapGet ?m' x of Some s \<Rightarrow> s | None \<Rightarrow> Num 0) c))"
    by (rule Cons.IH [OF d])
  show ?case
  proof (cases "row_id row = x")
    case True
    with fresh have "contributionWith ar w k rows (Suc n) x = None"
      by (simp add: contributionWith_absent)
    with True show ?thesis
      by (simp add: step mapGet_addScoreWith contributionWith_Cons)
  next
    case False
    then have same: "mapGet ?m' x = mapGet m x"
      by (simp add: mapGet_addScoreWith)
    from False step [unfolded same] show ?thesis
      by (simp add: contributionWith_Cons)
  qed
qed

lemma mapGet_scoresWith:
  assumes "distinct (map row_id kw)" and "distinct (map row_id sem)"
  shows "mapGet (scoresWith ar kw sem k wk ws) x =
     (case contributionWith ar ws k sem 0 x of
        None \<Rightarrow>
          (case contributionWith ar wk k kw 0 x of
             None \<Rightarrow> None
           | Some a \<Rightarrow> Some (fadd ar (Num 0) a))
      | Some b \<Rightarrow>
          Some (fadd ar
            (case contributionWith ar wk k kw 0 x of
               None \<Rightarrow> Num 0
             | Some a \<Rightarrow> fadd ar (Num 0) a) b))"
proof -
  have "mapGet [] x = (None :: jsnum option)"
    by (simp add: mapGet_def)
  then show ?thesis
    by (simp add: scoresWith_def forEach_def mapGet_addScoreWith_fold [OF assms(1)]
        mapGet_addScoreWith_fold [OF assms(2)] split: option.splits)
qed

lemma scoresWith_swap:
  assumes comm: "\<forall>a b. fadd ar a b = fadd ar b a"
    and zero: "\<forall>a d. fadd ar (Num 0) (fdiv ar a d) = fdiv ar a d"
    and dk: "distinct (map row_id kw)" and ds: "distinct (map row_id sem)"
  shows "mapGet (scoresWith ar kw sem k w w) x = mapGet (scoresWith ar sem kw k w w) x"
proof -
  have z: "fadd ar (Num 0) c = c" if "contributionWith ar w k rows 0 x = Some c" for rows c
    using contributionWith_quotient [OF that] zero by auto
  show ?thesis
  proof (cases "contributionWith ar w k kw 0 x")
    case None
    then show ?thesis
      by (cases "contributionWith ar w k sem 0 x")
        (simp_all add: mapGet_scoresWith [OF dk ds] mapGet_scoresWith [OF ds dk] z)
  next
    case (Some a)
    show ?thesis
    proof (cases "contributionWith ar w k sem 0 x")
      case None
      with Some show ?thesis
        by (simp add: mapGet_scoresWith [OF dk ds] mapGet_scoresWith [OF ds dk] z)
    next
      case (Some b)
      with \<open>contributionWith ar w k kw 0 x = Some a\<close>
      have "mapGet (scoresWith ar kw sem k w w) x = Some (fadd ar a b)"
        and "mapGet (scoresWith ar sem kw k w w) x = Some (fadd ar b a)"
        by (simp_all add: mapGet_scoresWith [OF dk ds] mapGet_scoresWith [OF ds dk] z)
      with comm show ?thesis
        by metis
    qed
  qed
qed

lemma slice0_map: "slice0 (map f xs) e = map f (slice0 xs e)"
  by (simp add: slice0_take take_map)

lemma scores_rrfFusionWeightedWith:
  "map score (rrfFusionWeightedWith ar kw sem k wk ws lmt) =
     slice0 (map snd (sortBy byScoreDesc (scoresWith ar kw sem k wk ws))) lmt"
  by (simp add: rrfFusionWeightedWith_unfold slice0_map score_toResult comp_def)

lemma sorted_scores_swap:
  assumes comm: "\<forall>a b. fadd ar a b = fadd ar b a"
    and zero: "\<forall>a d. fadd ar (Num 0) (fdiv ar a d) = fdiv ar a d"
    and dk: "distinct (map row_id kw)" and ds: "distinct (map row_id sem)"
    and nan: "NaN \<notin> snd ` set (scoresWith ar kw sem k w w)"
  shows "map snd (sortBy byScoreDesc (scoresWith ar kw sem k w w)) =
         map snd (sortBy byScoreDesc (scoresWith ar sem kw k w w))"
proof -
  let ?s1 = "scoresWith ar kw sem k w w" and ?s2 = "scoresWith ar sem kw k w w"
  let ?f = "\<lambda>e :: int \<times> jsnum. sortKey (snd e)"
  let ?g = "\<lambda>p :: nat \<times> rat.
      if fst p = 0 then PosInfinity else if fst p = 1 then Num (- snd p) else NegInfinity"
  have d1: "distinct (map fst ?s1)" and d2: "distinct (map fst ?s2)"
    by (simp_all only: keys_scoresWith distinct_firstSeen)
  have "map_of ?s1 = map_of ?s2"
  proof
    fix x
    show "map_of ?s1 x = map_of ?s2 x"
      using scoresWith_swap [OF comm zero dk ds, of k w x] by (simp add: mapGet_def)
  qed
  with d1 d2 have sets: "set ?s1 = set ?s2"
    by (simp add: map_of_inject_set)
  from nan have fin1: "\<forall>e \<in> set ?s1. snd e \<noteq> NaN"
    by force
  with sets have fin2: "\<forall>e \<in> set ?s2. snd e \<noteq> NaN"
    by simp
  from d1 d2 have "distinct ?s1" "distinct ?s2"
    by (simp_all add: distinct_map)
  with sets have "mset ?s1 = mset ?s2"
    by (simp add: set_eq_iff_mset_eq_distinct)
  then have "mset (map ?f (sort_key ?f ?s1)) = mset (map ?f (sort_key ?f ?s2))"
    by simp
  moreover have "sorted (map ?f (sort_key ?f ?s1))" "sorted (map ?f (sort_key ?f ?s2))"
    by (rule sorted_sort_key)+
  ultimately have keys: "map ?f (sort_key ?f ?s1) = map ?f (sort_key ?f ?s2)"
    using properties_for_sort [of "map ?f (sort_key ?f ?s1)" "map ?f (sort_key ?f ?s2)"]
      sort_key_id_if_sorted [of "\<lambda>x. x" "map ?f (sort_key ?f ?s2)"]
    by simp
  have from_keys: "map snd xs = map ?g (map ?f xs)"
    if "\<forall>e \<in> set xs. snd e \<noteq> NaN" for xs :: "(int \<times> jsnum) list"
    using that
  proof (induction xs)
    case Nil
    then show ?case by simp
  next
    case (Cons e xs)
    then have "snd e \<noteq> NaN" by simp
    then have "?g (?f e) = snd e"
      by (cases "snd e") simp_all
    with Cons show ?case by simp
  qed
  have "map snd (sort_key ?f ?s1) = map ?g (map ?f (sort_key ?f ?s1))"
    using fin1 by (intro from_keys) simp
  moreover have "map snd (sort_key ?f ?s2) = map ?g (map ?f (sort_key ?f ?s2))"
    using fin2 by (intro from_keys) simp
  ultimately have "map snd (sort_key ?f ?s1) = map snd (sort_key ?f ?s2)"
    by (simp only: keys)
  then show ?thesis
    using fin1 fin2 by (simp only: sortBy_sortKey)
qed

lemma toGrid_idem: "toGrid (toGrid r) = toGrid r"
  by (simp add: toGrid_def)

lemma roundNum_zero_plus: "roundNum (Num 0 + roundNum x) = roundNum x"
  by (cases x) (simp_all add: toGrid_idem)

text \<open>
  Claim C7. For every pair of ranked lists (each holds every id once) and every \<open>k\<close>,
  when both weights are the same \<open>w\<close>, the fusion of (keyword, semantic) and the fusion
  of the swapped lists give every id the same fused score: the \<^verbatim>\<open>scores\<close> maps agree
  at every id, and two results with the same id, one of each output, have the same
  score. This holds for every arithmetic of doubles whose addition is commutative and
  leaves a quotient unchanged when it is added to \<open>0\<close>, as IEEE 754 addition is and
  does; no associativity is used. When no score is \<open>NaN\<close>, the two outputs, cut at the
  same \<open>limit\<close>, moreover show the same scores position by position: they differ at
  most in the order of ids of equal score. (The witness below is at the coarse
  arithmetic.)
\<close>

theorem equal_weights_commute:
  assumes "\<forall>a b. fadd ar a b = fadd ar b a"
    and "\<forall>a d. fadd ar (Num 0) (fdiv ar a d) = fdiv ar a d"
    and "distinct (map row_id keywordResults)"
    and "distinct (map row_id semanticResults)"
  shows "mapGet (scoresWith ar keywordResults semanticResults k w w) x =
           mapGet (scoresWith ar semanticResults keywordResults k w w) x
       \<and> (\<forall>r \<in> set (rrfFusionWeightedWith ar keywordResults semanticResults k w w lmt).
            \<forall>r' \<in> set (rrfFusionWeightedWith ar semanticResults keywordResults k w w lmt').
              row_id r = row_id r' \<longrightarrow> score r = score r')
       \<and> (NaN \<notin> snd ` set (scoresWith ar keywordResults semanticResults k w w) \<longrightarrow>
            map score (rrfFusionWeightedWith ar keywordResults semanticResults k w w lmt) =
            map score (rrfFusionWeightedWith ar semanticResults keywordResults k w w lmt))"
proof -
  have swap: "mapGet (scoresWith ar keywordResults semanticResults k w w) y =
      mapGet (scoresWith ar semanticResults keywordResults k w w) y" for y
    by (rule scoresWith_swap [OF assms])
  have "score r = score r'"
    if "r \<in> set (rrfFusionWeightedWith ar keywordResults semanticResults k w w lmt)"
      and "r' \<in> set (rrfFusionWeightedWith ar semanticResults keywordResults k w w lmt')"
      and "row_id r = row_id r'" for r r'
    using score_rrfFusionWeightedWith [OF that(1)] score_rrfFusionWeightedWith [OF that(2)]
      swap [of "row_id r"] that(3) by simp
  moreover have "map score (rrfFusionWeightedWith ar keywordResults semanticResults k w w lmt) =
      map score (rrfFusionWeightedWith ar semanticResults keywordResults k w w lmt)"
    if "NaN \<notin> snd ` set (scoresWith ar keywordResults semanticResults k w w)"
    using sorted_scores_swap [OF assms that]
    by (simp only: scores_rrfFusionWeightedWith)
  ultimately show ?thesis
    using swap by blast
qed

theorem equal_weights_commute_witness:
  "(\<forall>a b. fadd gridOps a b = fadd gridOps b a)
   \<and> (\<forall>a d. fadd gridOps (Num 0) (fdiv gridOps a d) = fdiv gridOps a d)
   \<and> distinct (map row_id [\<lparr>row_id = 1, content = ''a''\<rparr>, \<lparr>row_id = 2, content = ''b''\<rparr>])
   \<and> distinct (map row_id [\<lparr>row_id = 2, content = ''b''\<rparr>, \<lparr>row_id = 3, content = ''c''\<rparr>])
   \<and> mapGet (scoresWith gridOps [\<lparr>row_id = 2, content = ''b''\<rparr>, \<lparr>row_id = 3, content = ''c''\<rparr>]
         [\<lparr>row_id = 1, content = ''a''\<rparr>, \<lparr>row_id = 2, content = ''b''\<rparr>] (Num 60) (Num 1) (Num 1)) 2 = Some (Num (17 / 512))
   \<and> \<lparr>row_id = 2, content = ''b'', score = Num (17 / 512)\<rparr>
       \<in> set (rrfFusionWeightedWith gridOps [\<lparr>row_id = 1, content = ''a''\<rparr>, \<lparr>row_id = 2, content = ''b''\<rparr>]
            [\<lparr>row_id = 2, content = ''b''\<rparr>, \<lparr>row_id = 3, content = ''c''\<rparr>] (Num 60) (Num 1) (Num 1) 10)
   \<and> \<lparr>row_id = 2, content = ''b'', score = Num (17 / 512)\<rparr>
       \<in> set (rrfFusionWeightedWith gridOps [\<lparr>row_id = 2, content = ''b''\<rparr>, \<lparr>row_id = 3, content = ''c''\<rparr>]
            [\<lparr>row_id = 1, content = ''a''\<rparr>, \<lparr>row_id = 2, content = ''b''\<rparr>] (Num 60) (Num 1) (Num 1) 10)
   \<and> NaN \<notin> snd ` set (scoresWith gridOps [\<lparr>row_id = 1, content = ''a''\<rparr>, \<lparr>row_id = 2, content = ''b''\<rparr>]
            [\<lparr>row_id = 2, content = ''b''\<rparr>, \<lparr>row_id = 3, content = ''c''\<rparr>] (Num 60) (Num 1) (Num 1))
   \<and> map score (rrfFusionWeightedWith gridOps [\<lparr>row_id = 1, content = ''a''\<rparr>, \<lparr>row_id = 2, content = ''b''\<rparr>]
            [\<lparr>row_id = 2, content = ''b''\<rparr>, \<lparr>row_id = 3, content = ''c''\<rparr>] (Num 60) (Num 1) (Num 1) 10) =
       map score (rrfFusionWeightedWith gridOps [\<lparr>row_id = 2, content = ''b''\<rparr>, \<lparr>row_id = 3, content = ''c''\<rparr>]
            [\<lparr>row_id = 1, content = ''a''\<rparr>, \<lparr>row_id = 2, content = ''b''\<rparr>] (Num 60) (Num 1) (Num 1) 10)"
proof -
  have h1: "\<forall>a b. fadd gridOps a b = fadd gridOps b a"
    by (simp add: gridOps_def add.commute)
  have h2: "\<forall>a d. fadd gridOps (Num 0) (fdiv gridOps a d) = fdiv gridOps a d"
    by (simp add: gridOps_def roundNum_zero_plus)
  have h3: "distinct (map row_id [\<lparr>row_id = 1, content = ''a''\<rparr>, \<lparr>row_id = 2, content = ''b''\<rparr>])"
    and h4: "distinct (map row_id [\<lparr>row_id = 2, content = ''b''\<rparr>, \<lparr>row_id = 3, content = ''c''\<rparr>])"
    by simp_all
  have score2: "mapGet (scoresWith gridOps [\<lparr>row_id = 2, content = ''b''\<rparr>, \<lparr>row_id = 3, content = ''c''\<rparr>]
         [\<lparr>row_id = 1, content = ''a''\<rparr>, \<lparr>row_id = 2, content = ''b''\<rparr>] (Num 60) (Num 1) (Num 1)) 2 = Some (Num (17 / 512))"
    by code_simp
  have mem1: "\<lparr>row_id = 2, content = ''b'', score = Num (17 / 512)\<rparr>
       \<in> set (rrfFusionWeightedWith gridOps [\<lparr>row_id = 1, content = ''a''\<rparr>, \<lparr>row_id = 2, content = ''b''\<rparr>]
            [\<lparr>row_id = 2, content = ''b''\<rparr>, \<lparr>row_id = 3, content = ''c''\<rparr>] (Num 60) (Num 1) (Num 1) 10)"
    by code_simp
  have mem2: "\<lparr>row_id = 2, content = ''b'', score = Num (17 / 512)\<rparr>
       \<in> set (rrfFusionWeightedWith gridOps [\<lparr>row_id = 2, content = ''b''\<rparr>, \<lparr>row_id = 3, content = ''c''\<rparr>]
            [\<lparr>row_id = 1, content = ''a''\<rparr>, \<lparr>row_id = 2, content = ''b''\<rparr>] (Num 60) (Num 1) (Num 1) 10)"
    by code_simp
  have nan: "NaN \<notin> snd ` set (scoresWith gridOps [\<lparr>row_id = 1, content = ''a''\<rparr>, \<lparr>row_id = 2, content = ''b''\<rparr>]
            [\<lparr>row_id = 2, content = ''b''\<rparr>, \<lparr>row_id = 3, content = ''c''\<rparr>] (Num 60) (Num 1) (Num 1))"
    by code_simp
  from h1 h2 h3 h4 score2 mem1 mem2 nan
    equal_weights_commute [OF h1 h2 h3 h4, of "Num 60" "Num 1" 2 10 10]
  show ?thesis
    by (simp only: simp_thms)
qed

section \<open>Properties of search\_docs\<close>

lemma trim_empty_iff: "trim s = [] \<longleftrightarrow> (\<forall>c \<in> set s. isWhiteSpace c)"
proof (cases "dropWhile isWhiteSpace s")
  case Nil
  then have "\<forall>c \<in> set s. isWhiteSpace c"
    by (simp only: dropWhile_eq_Nil_conv)
  moreover from Nil have "trim s = []"
    by (auto simp: trim_def dest: set_dropWhileD)
  ultimately show ?thesis by simp
next
  case (Cons c cs)
  then have c: "\<not> isWhiteSpace c"
    using hd_dropWhile [of isWhiteSpace s] by simp
  have "c \<in> set (rev (dropWhile isWhiteSpace s))"
    by (simp add: Cons)
  with c have "dropWhile isWhiteSpace (rev (dropWhile isWhiteSpace s)) \<noteq> []"
    by (auto simp only: dropWhile_eq_Nil_conv)
  moreover from Cons have "\<not> (\<forall>c \<in> set s. isWhiteSpace c)"
    by (simp flip: dropWhile_eq_Nil_conv)
  ultimately show ?thesis
    by (auto simp: trim_def)
qed

text \<open>
  Claim C9. For every input whose query is empty or holds only white space (the code
  units \<^verbatim>\<open>trim\<close> strips), the tool throws the error "Query must be a non-empty
  string." and has issued no call by then, neither to the embedding model nor to the
  database, whatever \<^verbatim>\<open>source\<close>, \<^verbatim>\<open>search_type\<close>, \<^verbatim>\<open>version\<close> and \<^verbatim>\<open>limit\<close> are.
\<close>

theorem blank_query_rejected:
  assumes "\<forall>c \<in> set (query inp). isWhiteSpace c"
  shows "search_docs ctx inp = ([], Inl (Error ''Query must be a non-empty string.''))"
  using assms by (simp add: search_docs_def trim_empty_iff)

theorem blank_query_rejected_witness:
  "isWhiteSpace 0x20 \<and> isWhiteSpace 0x9 \<and> isWhiteSpace 0xA0
   \<and> search_docs \<lparr>embed = (\<lambda>q. Inr [1 / 2]), pgPool_query = (\<lambda>stmt ps. Inr [1 :: nat]),
                     schema = ''docs''\<rparr>
         \<lparr>source = tiger, search_type = semantic, query = [0x20, 0x9, 0xA0],
          version = latest, limit = 5\<rparr> =
       ([], Inl (Error ''Query must be a non-empty string.''))"
proof -
  have h: "\<forall>c \<in> set (query \<lparr>source = tiger, search_type = semantic, query = [0x20, 0x9, 0xA0],
          version = latest, limit = 5\<rparr>). isWhiteSpace c"
    by (simp add: isWhiteSpace_def)
  have "isWhiteSpace 0x20 \<and> isWhiteSpace 0x9 \<and> isWhiteSpace 0xA0"
    by (simp add: isWhiteSpace_def)
  then show ?thesis
    using blank_query_rejected [OF h] by simp
qed

text \<open>
  Claim C10. For every input with \<open>limit \<le> 0\<close> the tool behaves exactly as for
  \<open>limit = 10\<close>: it neither fails for that reason nor asks for zero rows. The last
  value bound in every query the tool issues (the \<^verbatim>\<open>LIMIT\<close> placeholder) is \<open>10\<close>
  when \<open>limit \<le> 0\<close> and the passed \<open>limit\<close> itself when \<open>limit > 0\<close>.
\<close>

theorem default_limit:
  "(\<forall>c \<in> set (fst (search_docs ctx inp)). \<forall>stmt ps. c = Query stmt ps \<longrightarrow>
       ps \<noteq> [] \<and> last ps = PNumber (if 0 < limit inp then limit inp else 10))
   \<and> (limit inp \<le> 0 \<longrightarrow> search_docs ctx inp = search_docs ctx (inp\<lparr>limit := 10\<rparr>))"
proof -
  have "ps \<noteq> [] \<and> last ps = PNumber (if 0 < limit inp then limit inp else 10)"
    if "c \<in> set (fst (search_docs ctx inp))" and "c = Query stmt ps" for c stmt ps
    using that
    by (auto simp: search_docs_def runQuery_def Let_def
        split: if_splits search_type.splits source.splits sum.splits)
  moreover have "search_docs ctx inp = search_docs ctx (inp\<lparr>limit := 10\<rparr>)" if "limit inp \<le> 0"
    using that
    by (simp add: search_docs_def Let_def split: search_type.splits source.splits sum.splits)
  ultimately show ?thesis by blast
qed

theorem default_limit_witness:
  "Query (TimescaleChunksByBm25 ''docs'') [PString [0x61, 0x62], PNumber 10]
     \<in> set (fst (search_docs
          \<lparr>embed = (\<lambda>q. Inr [1 / 2]), pgPool_query = (\<lambda>stmt ps. Inr [1 :: nat]), schema = ''docs''\<rparr>
          \<lparr>source = tiger, search_type = keyword, query = [0x61, 0x62], version = latest,
           limit = - 3\<rparr>))
   \<and> last [PString [0x61, 0x62], PNumber 10] = PNumber 10
   \<and> search_docs
          \<lparr>embed = (\<lambda>q. Inr [1 / 2]), pgPool_query = (\<lambda>stmt ps. Inr [1 :: nat]), schema = ''docs''\<rparr>
          \<lparr>source = tiger, search_type = keyword, query = [0x61, 0x62], version = latest,
           limit = - 3\<rparr> =
       search_docs
          \<lparr>embed = (\<lambda>q. Inr [1 / 2]), pgPool_query = (\<lambda>stmt ps. Inr [1 :: nat]), schema = ''docs''\<rparr>
          \<lparr>source = tiger, search_type = keyword, query = [0x61, 0x62], version = latest,
           limit = 10\<rparr>"
proof -
  have mem: "Query (TimescaleChunksByBm25 ''docs'') [PString [0x61, 0x62], PNumber 10]
     \<in> set (fst (search_docs
          \<lparr>embed = (\<lambda>q. Inr [1 / 2]), pgPool_query = (\<lambda>stmt ps. Inr [1 :: nat]), schema = ''docs''\<rparr>
          \<lparr>source = tiger, search_type = keyword, query = [0x61, 0x62], version = latest,
           limit = - 3\<rparr>))"
    by (simp add: search_docs_def runQuery_def trim_def isWhiteSpace_def)
  from mem default_limit
    [of "\<lparr>embed = (\<lambda>q. Inr [1 / 2]), pgPool_query = (\<lambda>stmt ps. Inr [1 :: nat]), schema = ''docs''\<rparr>"
        "\<lparr>source = tiger, search_type = keyword, query = [0x61, 0x62], version = latest,
           limit = - 3\<rparr>"]
  show ?thesis by simp
qed

end
